theory Spec2Isabelle
  imports Main "HOL-Library.Word" "HOL-Library.Sublist"
begin

section \<open>PushingToViewsBlockOutputStream: the fan-out writer of an insert\<close>

text \<open>
  The development embeds \<^verbatim>\<open>src/DataStreams/PushingToViewsBlockOutputStream.cpp\<close>.
  The writer object is a record, the thread-local slot \<^verbatim>\<open>current_thread\<close> and the calls
  made on the collaborators (sinks, the live view, the select pipeline, the views log) are
  an explicit world that every method takes and returns. What a collaborator answers is
  not part of the file: it is a parameter \<open>env\<close>, a function of the calls made so far.
  A C++ exception is a value; a method returns its outcome next to the new state.
\<close>

subsection \<open>Blocks\<close>

text \<open>
  A block is its list of columns. Of a column the writer only needs the name, the nested
  data structure it belongs to (for an Array column named \<^verbatim>\<open>n.x\<close> the prefix \<^verbatim>\<open>n\<close>) and
  the sizes of its arrays, row by row.
\<close>

record column =
  col_name :: string
  nested_group :: "string option"
  array_sizes :: "nat list"

type_synonym block = "column list"

text \<open>Exceptions: \<^verbatim>\<open>DB::Exception\<close> carries a message that can be extended; anything else
  (caught by \<^verbatim>\<open>catch (...)\<close>) is kept with its text and cannot be changed.\<close>

datatype exn = Exception string | Other string

fun message :: "exn \<Rightarrow> string" where
  "message (Exception m) = m"
| "message (Other m) = m"

text \<open>Modelled from the spec: \<^verbatim>\<open>Exception::addMessage\<close> (Common/Exception.h) is not among the
  sources. The stage runner captures a failure "augmenting its message with the view's
  display name": the text is appended to the message, after a separator when the message
  is not empty.\<close>

definition addMessage :: "string \<Rightarrow> string \<Rightarrow> string" where
  "addMessage m arg =
     (if arg = [] then m else if m = [] then arg else m @ '': '' @ arg)"

text \<open>Modelled from the spec: \<^verbatim>\<open>Nested::validateArraySizes\<close> (DataTypes/NestedUtils.h) is not
  among the sources. "Parallel nested array sizes must hold across all sibling array
  columns of a nested group": every column of a nested group is compared with the first
  column of that group met in the block, and a difference raises the shape error.\<close>

fun first_of_group :: "string \<Rightarrow> block \<Rightarrow> column option" where
  "first_of_group g [] = None"
| "first_of_group g (c # cs) =
     (if nested_group c = Some g then Some c else first_of_group g cs)"

fun validate_columns :: "block \<Rightarrow> block \<Rightarrow> exn option" where
  "validate_columns seen [] = None"
| "validate_columns seen (c # cs) =
     (case nested_group c of
        None \<Rightarrow> validate_columns (seen @ [c]) cs
      | Some g \<Rightarrow>
          (case first_of_group g seen of
             None \<Rightarrow> validate_columns (seen @ [c]) cs
           | Some f \<Rightarrow>
               if array_sizes f = array_sizes c then validate_columns (seen @ [c]) cs
               else Some (Exception ''SIZES_OF_ARRAYS_DOESNT_MATCH'')))"

definition validateArraySizes :: "block \<Rightarrow> exn option" where
  "validateArraySizes b = validate_columns [] b"

text \<open>\<^verbatim>\<open>Block::operator bool\<close>: a block without columns ends a \<^verbatim>\<open>while (Block b = in->read())\<close>.\<close>

definition block_bool :: "block \<Rightarrow> bool" where
  "block_bool b = (b \<noteq> [])"

subsection \<open>View records, settings, the writer\<close>

datatype ViewType = DEFAULT | MATERIALIZED | LIVE

datatype ViewStatus = INIT | WRITTEN_PREFIX | WRITTEN_BLOCK | WRITTEN_SUFFIX

type_synonym sink = nat
type_synonym query = string
type_synonym thread_ptr = "nat option"
type_synonym thread_id = nat

record ViewRuntimeStats =
  target_name :: string
  view_type :: ViewType
  thread_status :: nat
  elapsed_ms :: "64 word"
  status :: ViewStatus

record ViewInfo =
  query :: "query option"
  table_id :: string
  out :: sink
  exception :: "exn option"
  runtime_stats :: ViewRuntimeStats

record Settings =
  deduplicate_blocks_in_dependent_materialized_views :: bool
  insert_deduplicate :: bool
  min_insert_block_size_rows :: "64 word"
  min_insert_block_size_bytes :: "64 word"
  min_insert_block_size_rows_for_materialized_views :: "64 word"
  min_insert_block_size_bytes_for_materialized_views :: "64 word"
  parallel_view_processing :: bool
  max_threads :: "64 word"
  log_queries :: bool
  log_query_views_setting :: bool
  log_queries_min_query_duration_ms :: "64 word"

text \<open>The members of the writer. \<open>storage_is_live_view\<close> is the outcome of
  \<^verbatim>\<open>dynamic_cast<StorageLiveView *>(storage.get())\<close>, \<open>output_sink\<close> the member \<^verbatim>\<open>output\<close>, the direct sink (absent
  when the writer was built with \<^verbatim>\<open>no_destination\<close>), \<open>replicated_output\<close> tells whether the
  cast of the sink to \<^verbatim>\<open>ReplicatedMergeTreeSink\<close> gave a pointer.\<close>

record writer =
  storage_is_live_view :: bool
  output_sink :: "sink option"
  replicated_output :: bool
  getContext :: Settings
  select_context :: "Settings option"
  insert_context :: "Settings option"
  views :: "ViewInfo list"

subsection \<open>The world: calls on collaborators and the thread-local slot\<close>

datatype call =
    SinkWritePrefix sink
  | SinkWrite sink block
  | SinkWriteSuffix sink
  | SinkFlush sink
  | WriteIntoLiveView block
  | SelectExecute query block
  | LogToQueryViewsLog ViewInfo

record world =
  trace :: "call list"
  current_thread :: "thread_id \<Rightarrow> thread_ptr"

text \<open>What the collaborators answer, given the calls made before: whether a call throws,
  which blocks the select pipeline of a view yields for an inserted block (and whether it
  throws once they are read), what \<^verbatim>\<open>lastBlockIsDuplicate\<close> says, what a stopwatch reads.\<close>

record env =
  sink_outcome :: "call list \<Rightarrow> call \<Rightarrow> exn option"
  select_stream :: "call list \<Rightarrow> query \<Rightarrow> block \<Rightarrow> block list \<times> exn option"
  lastBlockIsDuplicate :: "call list \<Rightarrow> bool"
  elapsedMilliseconds :: "call list \<Rightarrow> 64 word"

datatype result = Returned | Thrown exn | Terminated

text \<open>A call on a collaborator is recorded, and the environment tells whether it throws.
  The call leaves \<^verbatim>\<open>current_thread\<close> of the calling thread as it found it: this is what
  the writer expects of its sinks (the sink of a view is itself such a writer).\<close>

definition invoke :: "env \<Rightarrow> call \<Rightarrow> world \<Rightarrow> world \<times> exn option" where
  "invoke e c wd = (wd\<lparr>trace := trace wd @ [c]\<rparr>, sink_outcome e (trace wd) c)"

subsection \<open>The per-view stage runners\<close>

text \<open>The loop \<^verbatim>\<open>while (Block result_block = in->read())\<close> of \<^verbatim>\<open>process\<close>: it ends at the
  end of the stream or at a block without columns; each block before that is validated,
  then written to the sink of the view; the first failure leaves the loop.\<close>

fun push_blocks :: "env \<Rightarrow> sink \<Rightarrow> block list \<Rightarrow> world \<Rightarrow> world \<times> exn option" where
  "push_blocks e s [] wd = (wd, None)"
| "push_blocks e s (b # bs) wd =
     (if \<not> block_bool b then (wd, None)
      else (case validateArraySizes b of
              Some x \<Rightarrow> (wd, Some x)
            | None \<Rightarrow>
                (case invoke e (SinkWrite s b) wd of
                   (wd', Some x) \<Rightarrow> (wd', Some x)
                 | (wd', None) \<Rightarrow> push_blocks e s bs wd')))"

text \<open>The \<^verbatim>\<open>try\<close> block of \<^verbatim>\<open>process\<close>. With an inner query the blocks are those of the
  select pipeline over the inserted block (squashed and converted); without one the
  stream is \<^verbatim>\<open>OneBlockInputStream(block)\<close>, which yields the block once, and nothing to
  the loop when the block has no columns. The answer is the exception that left the
  \<^verbatim>\<open>try\<close> block, if any.\<close>

definition process_body :: "env \<Rightarrow> block \<Rightarrow> ViewInfo \<Rightarrow> world \<Rightarrow> world \<times> exn option" where
  "process_body e blk view wd =
     (case query view of
        Some q \<Rightarrow>
          (let wd1 = wd\<lparr>trace := trace wd @ [SelectExecute q blk]\<rparr>;
               (blocks, at_end) = select_stream e (trace wd) q blk
           in case push_blocks e (out view) blocks wd1 of
                (wd2, Some x) \<Rightarrow> (wd2, Some x)
              | (wd2, None) \<Rightarrow> (wd2, at_end))
      | None \<Rightarrow> push_blocks e (out view) (if block_bool blk then [blk] else []) wd)"

text \<open>The two \<^verbatim>\<open>catch\<close> clauses shared by the three runners: a \<^verbatim>\<open>DB::Exception\<close> gets the
  text added to its message, any other exception is stored as it is.\<close>

fun capture :: "string \<Rightarrow> exn \<Rightarrow> exn" where
  "capture text (Exception m) = Exception (addMessage m text)"
| "capture text (Other m) = Other m"

text \<open>A runner on thread \<open>t\<close>: the slot of \<open>t\<close> is saved and set to the thread status of the
  view; after the \<^verbatim>\<open>try\<close>/\<^verbatim>\<open>catch\<close> the elapsed time is added (unsigned 64-bit), and the
  scope guard puts the saved value back on the way out. \<open>body\<close> is the \<^verbatim>\<open>try\<close> block,
  \<open>done\<close> the status set at its end, \<open>text\<close> what a \<^verbatim>\<open>DB::Exception\<close> gets added. The
  resource counters of the thread status (\<^verbatim>\<open>last_rusage\<close>, \<^verbatim>\<open>updatePerformanceCounters\<close>)
  and the lines written to the text log are left out.\<close>

definition run_stage ::
  "env \<Rightarrow> thread_id \<Rightarrow> (world \<Rightarrow> world \<times> exn option) \<Rightarrow> ViewStatus \<Rightarrow> string \<Rightarrow>
   ViewInfo \<Rightarrow> world \<Rightarrow> ViewInfo \<times> world" where
  "run_stage e t body done text view wd =
     (let running_thread = current_thread wd t;
          wd1 = wd\<lparr>current_thread := (current_thread wd)(t := Some (thread_status (runtime_stats view)))\<rparr>;
          (wd2, thrown) = body wd1;
          view1 = (case thrown of
                     None \<Rightarrow> view\<lparr>runtime_stats := (runtime_stats view)\<lparr>status := done\<rparr>\<rparr>
                   | Some x \<Rightarrow> view\<lparr>exception := Some (capture text x)\<rparr>);
          view2 = view1\<lparr>runtime_stats := (runtime_stats view1)
                    \<lparr>elapsed_ms := elapsed_ms (runtime_stats view1) + elapsedMilliseconds e (trace wd2)\<rparr>\<rparr>;
          wd3 = wd2\<lparr>current_thread := (current_thread wd2)(t := running_thread)\<rparr>
      in (view2, wd3))"

definition process :: "env \<Rightarrow> thread_id \<Rightarrow> block \<Rightarrow> ViewInfo \<Rightarrow> world \<Rightarrow> ViewInfo \<times> world" where
  "process e t blk view wd =
     run_stage e t (process_body e blk view) WRITTEN_BLOCK
       (''while pushing to view '' @ table_id view) view wd"

definition process_prefix :: "env \<Rightarrow> thread_id \<Rightarrow> ViewInfo \<Rightarrow> world \<Rightarrow> ViewInfo \<times> world" where
  "process_prefix e t view wd =
     run_stage e t (invoke e (SinkWritePrefix (out view))) WRITTEN_PREFIX
       (''while writing prefix to view '' @ table_id view) view wd"

definition process_suffix :: "env \<Rightarrow> thread_id \<Rightarrow> ViewInfo \<Rightarrow> world \<Rightarrow> ViewInfo \<times> world" where
  "process_suffix e t view wd =
     run_stage e t (invoke e (SinkWriteSuffix (out view))) WRITTEN_SUFFIX
       (''while writing suffix to view '' @ table_id view) view wd"

subsection \<open>Telemetry and the collection of exceptions\<close>

text \<open>\<^verbatim>\<open>log_query_views\<close>: nothing without views or when the logs are off; otherwise every
  view above the duration threshold is handed to \<^verbatim>\<open>logToQueryViewsLog\<close>, whose own
  exceptions are caught and traced.\<close>

definition log_query_views :: "writer \<Rightarrow> world \<Rightarrow> world" where
  "log_query_views w wd =
     (let settings = getContext w;
          min_query_duration = log_queries_min_query_duration_ms settings
      in if views w = [] \<or> \<not> log_queries settings \<or> \<not> log_query_views_setting settings then wd
         else wd\<lparr>trace := trace wd @
                map LogToQueryViewsLog
                  (filter (\<lambda>view. \<not> (min_query_duration \<noteq> 0
                                      \<and> elapsed_ms (runtime_stats view) \<le> min_query_duration))
                     (views w))\<rparr>)"

text \<open>\<^verbatim>\<open>check_exceptions_in_views\<close>: the first view, in the order of the list, that holds an
  exception has the views logged and its exception rethrown.\<close>

fun check_exceptions_loop :: "writer \<Rightarrow> ViewInfo list \<Rightarrow> world \<Rightarrow> world \<times> result" where
  "check_exceptions_loop w [] wd = (wd, Returned)"
| "check_exceptions_loop w (view # rest) wd =
     (case exception view of
        Some x \<Rightarrow> (log_query_views w wd, Thrown x)
      | None \<Rightarrow> check_exceptions_loop w rest wd)"

definition check_exceptions_in_views :: "writer \<Rightarrow> world \<Rightarrow> world \<times> result" where
  "check_exceptions_in_views w wd = check_exceptions_loop w (views w) wd"

subsection \<open>Running a stage over the views\<close>

text \<open>The single-threaded branch of \<^verbatim>\<open>write\<close> and \<^verbatim>\<open>writeSuffix\<close>, and the loop of
  \<^verbatim>\<open>writePrefix\<close>: the views in order, leaving at the first view that holds an exception
  after its stage. The flag is \<^verbatim>\<open>exception_happened\<close>.\<close>

fun sequential_loop ::
  "(ViewInfo \<Rightarrow> world \<Rightarrow> ViewInfo \<times> world) \<Rightarrow> ViewInfo list \<Rightarrow> world \<Rightarrow>
   ViewInfo list \<times> world \<times> bool" where
  "sequential_loop stage [] wd = ([], wd, False)"
| "sequential_loop stage (view # rest) wd =
     (let (view', wd') = stage view wd
      in if exception view' \<noteq> None then (view' # rest, wd', True)
         else (let (rest', wd'', happened) = sequential_loop stage rest wd'
               in (view' # rest', wd'', happened)))"

text \<open>Modelled from the spec: \<^verbatim>\<open>ThreadPool\<close> (Common/ThreadPool.h) is not among the sources.
  "Parallel native threads, coordinated by a bounded pool", "the calling thread blocks in
  the writer until all scheduled work is drained". One job per view is scheduled. A job
  first loads \<^verbatim>\<open>exception_count\<close> and returns at once when it is not zero; otherwise it
  runs the stage on its view, on a pool thread, and adds one to the 8-bit counter when the
  view holds an exception. The two halves of a job are the two steps below; a schedule is
  the order in which jobs take steps, and whatever it leaves undone is drained in the
  order of the views. The bound on the jobs running at once is not imposed: every
  schedule of a bounded pool is one of these. The calls of one stage are recorded
  together, at the second step of its job. A failure to schedule a job
  (\<^verbatim>\<open>scheduleOrThrowOnError\<close>) is left out.\<close>

datatype job = Scheduled | Started | Finished

record pool =
  jobs :: "job list"
  exception_count :: "8 word"
  pool_views :: "ViewInfo list"
  pool_world :: world

definition worker :: "thread_id \<Rightarrow> nat \<Rightarrow> thread_id" where
  "worker t j = Suc (t + j)"

definition advance ::
  "(thread_id \<Rightarrow> ViewInfo \<Rightarrow> world \<Rightarrow> ViewInfo \<times> world) \<Rightarrow> thread_id \<Rightarrow> pool \<Rightarrow> nat \<Rightarrow> pool" where
  "advance stage t p j =
     (if j < length (jobs p) \<and> j < length (pool_views p) then
        (case jobs p ! j of
           Scheduled \<Rightarrow>
             (if exception_count p \<noteq> 0 then p\<lparr>jobs := (jobs p)[j := Finished]\<rparr>
              else p\<lparr>jobs := (jobs p)[j := Started]\<rparr>)
         | Started \<Rightarrow>
             (let (view', wd') = stage (worker t j) (pool_views p ! j) (pool_world p)
              in p\<lparr>jobs := (jobs p)[j := Finished],
                   exception_count :=
                     (if exception view' \<noteq> None then exception_count p + 1 else exception_count p),
                   pool_views := (pool_views p)[j := view'],
                   pool_world := wd'\<rparr>)
         | Finished \<Rightarrow> p)
      else p)"

definition drain :: "nat \<Rightarrow> nat list" where
  "drain n = concat (map (\<lambda>j. [j, j]) [0..<n])"

definition run_pool ::
  "(thread_id \<Rightarrow> ViewInfo \<Rightarrow> world \<Rightarrow> ViewInfo \<times> world) \<Rightarrow> thread_id \<Rightarrow> nat list \<Rightarrow>
   ViewInfo list \<Rightarrow> world \<Rightarrow> ViewInfo list \<times> world \<times> bool" where
  "run_pool stage t sched vs wd =
     (let p0 = \<lparr>jobs = replicate (length vs) Scheduled, exception_count = 0,
                 pool_views = vs, pool_world = wd\<rparr>;
          p = foldl (advance stage t) p0 (sched @ drain (length vs))
      in (pool_views p, pool_world p, exception_count p \<noteq> 0))"

text \<open>The part shared by \<^verbatim>\<open>write\<close> (lines 212 to 247) and \<^verbatim>\<open>writeSuffix\<close> (lines 277 to 312):
  the number of threads (the local \<^verbatim>\<open>max_threads\<close>, here \<open>pool_threads\<close>), the pool or
  the loop (\<open>run_views\<close>, which answers the views, the world and \<^verbatim>\<open>exception_happened\<close>),
  then \<^verbatim>\<open>check_exceptions_in_views\<close> when an exception happened.\<close>

definition pool_threads :: "writer \<Rightarrow> nat" where
  "pool_threads w =
     (let settings = getContext w
      in min (length (views w))
           (if parallel_view_processing settings then unat (max_threads settings) else 1))"

definition run_views ::
  "nat list \<Rightarrow> thread_id \<Rightarrow> (thread_id \<Rightarrow> ViewInfo \<Rightarrow> world \<Rightarrow> ViewInfo \<times> world) \<Rightarrow>
   writer \<Rightarrow> world \<Rightarrow> ViewInfo list \<times> world \<times> bool" where
  "run_views sched t stage w wd =
     (if pool_threads w > 1 then run_pool stage t sched (views w) wd
      else sequential_loop (stage t) (views w) wd)"

definition fan_out ::
  "nat list \<Rightarrow> thread_id \<Rightarrow> (thread_id \<Rightarrow> ViewInfo \<Rightarrow> world \<Rightarrow> ViewInfo \<times> world) \<Rightarrow>
   writer \<Rightarrow> world \<Rightarrow> writer \<times> world \<times> result" where
  "fan_out sched t stage w wd =
     (let (views', wd', exception_happened) = run_views sched t stage w wd;
          w' = w\<lparr>views := views'\<rparr>
      in if exception_happened
         then (let (wd'', r) = check_exceptions_in_views w' wd' in (w', wd'', r))
         else (w', wd', Returned))"

subsection \<open>The methods of the writer\<close>

text \<open>Each method runs on the calling thread \<open>t\<close> and answers the writer, the world and
  how it ended. \<open>sched\<close> is the schedule of the pool, used only in the parallel branch.\<close>

text \<open>\<^verbatim>\<open>if (output) output->m(...)\<close>: a call on the direct sink when there is one.\<close>

definition on_output :: "env \<Rightarrow> (sink \<Rightarrow> call) \<Rightarrow> writer \<Rightarrow> world \<Rightarrow> world \<times> exn option" where
  "on_output e m w wd =
     (case output_sink w of
        Some s \<Rightarrow> invoke e (m s) wd
      | None \<Rightarrow> (wd, None))"

text \<open>\<open>write_block\<close> is the method \<^verbatim>\<open>write\<close>; \<open>write_to_storage\<close> is its lines 193 to 203,
  the live view or the direct sink.\<close>

definition write_to_storage :: "env \<Rightarrow> block \<Rightarrow> writer \<Rightarrow> world \<Rightarrow> world \<times> exn option" where
  "write_to_storage e blk w wd =
     (if storage_is_live_view w then invoke e (WriteIntoLiveView blk) wd
      else on_output e (\<lambda>s. SinkWrite s blk) w wd)"

definition write_block ::
  "env \<Rightarrow> nat list \<Rightarrow> thread_id \<Rightarrow> block \<Rightarrow> writer \<Rightarrow> world \<Rightarrow> writer \<times> world \<times> result" where
  "write_block e sched t blk w wd =
     (case validateArraySizes blk of
        Some x \<Rightarrow> (w, wd, Thrown x)
      | None \<Rightarrow>
          (let (wd1, thrown) = write_to_storage e blk w wd
           in case thrown of
                Some x \<Rightarrow> (w, wd1, Thrown x)
              | None \<Rightarrow>
                  if views w = [] then (w, wd1, Returned)
                  else if \<not> deduplicate_blocks_in_dependent_materialized_views (getContext w)
                          \<and> replicated_output w \<and> lastBlockIsDuplicate e (trace wd1)
                  then (w, wd1, Returned)
                  else fan_out sched t (\<lambda>t'. process e t' blk) w wd1))"

text \<open>A \<^verbatim>\<open>throw;\<close> without operand rethrows the exception the thread is handling; when it
  handles none, \<^verbatim>\<open>std::terminate\<close> is called. \<open>handled\<close> is the exception the caller of
  \<^verbatim>\<open>writePrefix\<close> is handling, if any.\<close>

definition rethrow_handled :: "exn option \<Rightarrow> result" where
  "rethrow_handled handled = (case handled of Some x \<Rightarrow> Thrown x | None \<Rightarrow> Terminated)"

definition writePrefix ::
  "env \<Rightarrow> exn option \<Rightarrow> thread_id \<Rightarrow> writer \<Rightarrow> world \<Rightarrow> writer \<times> world \<times> result" where
  "writePrefix e handled t w wd =
     (let (wd1, thrown) = on_output e SinkWritePrefix w wd
      in case thrown of
           Some x \<Rightarrow> (w, wd1, Thrown x)
         | None \<Rightarrow>
             (let (views', wd2, failed) = sequential_loop (process_prefix e t) (views w) wd1;
                  w' = w\<lparr>views := views'\<rparr>
              in if failed then (w', log_query_views w' wd2, rethrow_handled handled)
                 else (w', wd2, Returned)))"

definition writeSuffix ::
  "env \<Rightarrow> nat list \<Rightarrow> thread_id \<Rightarrow> writer \<Rightarrow> world \<Rightarrow> writer \<times> world \<times> result" where
  "writeSuffix e sched t w wd =
     (let (wd1, thrown) = on_output e SinkWriteSuffix w wd
      in case thrown of
           Some x \<Rightarrow> (w, wd1, Thrown x)
         | None \<Rightarrow>
             if views w = [] then (w, wd1, Returned)
             else (case fan_out sched t (process_suffix e) w wd1 of
                     (w', wd2, Returned) \<Rightarrow> (w', log_query_views w' wd2, Returned)
                   | (w', wd2, r) \<Rightarrow> (w', wd2, r)))"

fun flush_views :: "env \<Rightarrow> ViewInfo list \<Rightarrow> world \<Rightarrow> world \<times> exn option" where
  "flush_views e [] wd = (wd, None)"
| "flush_views e (view # rest) wd =
     (case invoke e (SinkFlush (out view)) wd of
        (wd', Some x) \<Rightarrow> (wd', Some x)
      | (wd', None) \<Rightarrow> flush_views e rest wd')"

definition flush :: "env \<Rightarrow> writer \<Rightarrow> world \<Rightarrow> writer \<times> world \<times> result" where
  "flush e w wd =
     (let (wd1, thrown) = on_output e SinkFlush w wd
      in case thrown of
           Some x \<Rightarrow> (w, wd1, Thrown x)
         | None \<Rightarrow>
             (case flush_views e (views w) wd1 of
                (wd2, Some x) \<Rightarrow> (w, wd2, Thrown x)
              | (wd2, None) \<Rightarrow> (w, wd2, Returned)))"

text \<open>Modelled from the spec: \<^verbatim>\<open>ThreadStatus\<close> (Common/ThreadStatus.h) is not among the
  sources. "Destroying view records may itself unwind accounting contexts", and the
  source says that the destructor of a thread status modifies \<^verbatim>\<open>current_thread\<close>: the slot
  of the destroying thread is left null.\<close>

definition destroy_view :: "thread_id \<Rightarrow> world \<Rightarrow> ViewInfo \<Rightarrow> world" where
  "destroy_view t wd view = wd\<lparr>current_thread := (current_thread wd)(t := None)\<rparr>"

definition destructor :: "thread_id \<Rightarrow> writer \<Rightarrow> world \<Rightarrow> writer \<times> world" where
  "destructor t w wd =
     (let running_thread = current_thread wd t;
          wd1 = foldl (destroy_view t) wd (views w);
          w' = w\<lparr>views := []\<rparr>
      in (w', wd1\<lparr>current_thread := (current_thread wd1)(t := running_thread)\<rparr>))"

text \<open>Lines 53 to 79 of the constructor: the two contexts made for the dependents. A
  context is its settings; \<open>supportsDeduplication\<close> is what the storage answers and
  \<open>dependencies\<close> what the catalog lists for the table.\<close>

definition constructor_contexts ::
  "Settings \<Rightarrow> bool \<Rightarrow> bool \<Rightarrow> string list \<Rightarrow> Settings option \<times> Settings option" where
  "constructor_contexts ctx no_destination supportsDeduplication dependencies =
     (let disable_deduplication_for_children =
            (if \<not> deduplicate_blocks_in_dependent_materialized_views ctx
             then \<not> no_destination \<and> supportsDeduplication else False)
      in if dependencies \<noteq> [] then
           (let select_ctx = ctx;
                insert0 = ctx;
                insert1 = (if disable_deduplication_for_children
                           then insert0\<lparr>insert_deduplicate := False\<rparr> else insert0);
                insert2 = (if min_insert_block_size_rows_for_materialized_views insert1 \<noteq> 0
                           then insert1\<lparr>min_insert_block_size_rows :=
                                  min_insert_block_size_rows_for_materialized_views insert1\<rparr>
                           else insert1);
                insert3 = (if min_insert_block_size_bytes_for_materialized_views insert2 \<noteq> 0
                           then insert2\<lparr>min_insert_block_size_bytes :=
                                  min_insert_block_size_bytes_for_materialized_views insert2\<rparr>
                           else insert2)
            in (Some select_ctx, Some insert3))
         else (None, None))"

subsection \<open>Properties that the theorems speak of\<close>

text \<open>Two sibling columns of one nested group with different array sizes.\<close>

definition mismatched :: "block \<Rightarrow> bool" where
  "mismatched b =
     list_ex (\<lambda>c. list_ex (\<lambda>d. nested_group c \<noteq> None \<and> nested_group c = nested_group d
                                \<and> array_sizes c \<noteq> array_sizes d) b) b"

text \<open>The view holds no \<^verbatim>\<open>DB::Exception\<close> whose message lacks the display form of its
  table.\<close>

definition names_its_view :: "ViewInfo \<Rightarrow> bool" where
  "names_its_view view =
     (case exception view of
        Some (Exception m) \<Rightarrow> sublist (table_id view) m
      | Some (Other m) \<Rightarrow> True
      | None \<Rightarrow> True)"

text \<open>An invariant of the pool over \<open>n\<close> views: the counter has counted, modulo 256, some
  of the finished jobs, and while it has counted none, no finished job has left an
  exception in its view.\<close>

definition counted :: "nat \<Rightarrow> pool \<Rightarrow> bool" where
  "counted n q \<longleftrightarrow>
     length (jobs q) = n \<and> length (pool_views q) = n \<and>
     (\<exists>c. exception_count q = of_nat c \<and> c \<le> length (filter (\<lambda>s. s = Finished) (jobs q)) \<and>
          (c = 0 \<longrightarrow> (\<forall>j<n. jobs q ! j = Finished \<longrightarrow> exception (pool_views q ! j) = None)))"

text \<open>The position of the first view that holds an exception; the length of the list when
  no view holds one.\<close>

definition first_failed :: "ViewInfo list \<Rightarrow> nat" where
  "first_failed vs = length (takeWhile (\<lambda>v. exception v = None) vs)"

text \<open>Calls made one after the other until one throws: the yardstick for \<^verbatim>\<open>flush\<close>.\<close>

fun calls_in_order :: "env \<Rightarrow> call list \<Rightarrow> world \<Rightarrow> world \<times> exn option" where
  "calls_in_order e [] wd = (wd, None)"
| "calls_in_order e (c # cs) wd =
     (case invoke e c wd of
        (wd', Some x) \<Rightarrow> (wd', Some x)
      | (wd', None) \<Rightarrow> calls_in_order e cs wd')"

text \<open>The calls \<^verbatim>\<open>flush\<close> sets out to make, in order.\<close>

definition flush_calls :: "writer \<Rightarrow> call list" where
  "flush_calls w =
     (case output_sink w of Some s \<Rightarrow> [SinkFlush s] | None \<Rightarrow> [])
       @ map (\<lambda>view. SinkFlush (out view)) (views w)"

subsection \<open>Concrete writers, blocks and environments\<close>

definition plain_block :: block where
  "plain_block = [\<lparr>col_name = ''x'', nested_group = None, array_sizes = []\<rparr>]"

definition ragged_block :: block where
  "ragged_block =
     [\<lparr>col_name = ''n.a'', nested_group = Some ''n'', array_sizes = [1, 2]\<rparr>,
      \<lparr>col_name = ''n.b'', nested_group = Some ''n'', array_sizes = [1, 3]\<rparr>]"

definition default_settings :: Settings where
  "default_settings =
     \<lparr>deduplicate_blocks_in_dependent_materialized_views = False,
      insert_deduplicate = True,
      min_insert_block_size_rows = 1048576,
      min_insert_block_size_bytes = 268435456,
      min_insert_block_size_rows_for_materialized_views = 0,
      min_insert_block_size_bytes_for_materialized_views = 0,
      parallel_view_processing = False,
      max_threads = 8,
      log_queries = True,
      log_query_views_setting = True,
      log_queries_min_query_duration_ms = 0\<rparr>"

text \<open>A view as the constructor leaves it: no exception, status \<^verbatim>\<open>INIT\<close>, no time spent.\<close>

definition fresh_view :: "string \<Rightarrow> sink \<Rightarrow> ViewInfo" where
  "fresh_view name s =
     \<lparr>query = None, table_id = name, out = s, exception = None,
      runtime_stats = \<lparr>target_name = name, view_type = DEFAULT, thread_status = 100 + s,
                       elapsed_ms = 0, status = INIT\<rparr>\<rparr>"

definition two_views :: "ViewInfo list" where
  "two_views = [fresh_view ''db.v1'' 1, fresh_view ''db.v2'' 2]"

text \<open>Collaborators that never throw, and collaborators of which one call throws.\<close>

definition quiet_env :: env where
  "quiet_env =
     \<lparr>sink_outcome = (\<lambda>tr c. None),
      select_stream = (\<lambda>tr q b. ([b], None)),
      lastBlockIsDuplicate = (\<lambda>tr. False),
      elapsedMilliseconds = (\<lambda>tr. 1)\<rparr>"

definition failing_env :: "call \<Rightarrow> exn \<Rightarrow> env" where
  "failing_env c x = quiet_env\<lparr>sink_outcome := (\<lambda>tr c'. if c' = c then Some x else None)\<rparr>"

definition duplicate_env :: env where
  "duplicate_env = quiet_env\<lparr>lastBlockIsDuplicate := (\<lambda>tr. True)\<rparr>"

definition idle_world :: world where
  "idle_world = \<lparr>trace = [], current_thread = (\<lambda>t. Some t)\<rparr>"

text \<open>A writer on an ordinary table with direct sink 0, one on a replicated table, and one
  on a live view (built with \<^verbatim>\<open>no_destination\<close>).\<close>

definition table_writer :: "ViewInfo list \<Rightarrow> writer" where
  "table_writer vs =
     \<lparr>storage_is_live_view = False, output_sink = Some 0, replicated_output = False,
      getContext = default_settings,
      select_context = (if vs = [] then None else Some default_settings),
      insert_context = (if vs = [] then None else Some default_settings),
      views = vs\<rparr>"

definition replicated_writer :: "ViewInfo list \<Rightarrow> writer" where
  "replicated_writer vs = (table_writer vs)\<lparr>replicated_output := True\<rparr>"

definition live_view_writer :: "ViewInfo list \<Rightarrow> writer" where
  "live_view_writer vs = (table_writer vs)\<lparr>storage_is_live_view := True, output_sink := None\<rparr>"

definition parallel_writer :: "ViewInfo list \<Rightarrow> writer" where
  "parallel_writer vs =
     (table_writer vs)\<lparr>getContext := default_settings\<lparr>parallel_view_processing := True\<rparr>\<rparr>"

definition boom_env :: env where
  "boom_env = failing_env (SinkWrite 1 plain_block) (Exception ''boom'')"

definition failed_write :: "writer \<times> world \<times> result" where
  "failed_write = write_block boom_env [] 0 plain_block (table_writer two_views) idle_world"

definition suffix_after_failed_write :: "writer \<times> world \<times> result" where
  "suffix_after_failed_write =
     writeSuffix boom_env [] 0 (fst failed_write) (fst (snd failed_write))"

definition flush_boom_env :: env where
  "flush_boom_env = failing_env (SinkFlush 1) (Exception ''boom'')"

definition failed_flush :: "writer \<times> world \<times> result" where
  "failed_flush = flush flush_boom_env (table_writer two_views) idle_world"

definition prefix_boom_env :: env where
  "prefix_boom_env = failing_env (SinkWritePrefix 1) (Exception ''boom'')"

definition failed_prefix :: "writer \<times> world \<times> result" where
  "failed_prefix = writePrefix prefix_boom_env None 0 (table_writer two_views) idle_world"

definition live_write :: "writer \<times> world \<times> result" where
  "live_write = write_block quiet_env [] 0 plain_block (live_view_writer two_views) idle_world"

definition duplicate_write :: "writer \<times> world \<times> result" where
  "duplicate_write = write_block duplicate_env [] 0 plain_block (replicated_writer two_views) idle_world"

definition other_boom_env :: env where
  "other_boom_env = failing_env (SinkWrite 1 plain_block) (Other ''boom'')"

definition failed_write_other :: "writer \<times> world \<times> result" where
  "failed_write_other = write_block other_boom_env [] 0 plain_block (table_writer two_views) idle_world"

text \<open>The first view after the failed \<^verbatim>\<open>write\<close>, taken as a materialized view: it has an
  inner query.\<close>

definition failed_materialized_view :: ViewInfo where
  "failed_materialized_view = (views (fst failed_write) ! 0)\<lparr>query := Some ''SELECT x FROM db.t''\<rparr>"

section \<open>Verification\<close>

subsection \<open>Validation of nested array sizes\<close>

text \<open>The validation answers an exception exactly on the blocks with two sibling columns
  of different sizes, and that exception is the shape error.\<close>

lemma mismatched_iff:
  "mismatched b \<longleftrightarrow> (\<exists>c\<in>set b. \<exists>d\<in>set b. nested_group c \<noteq> None \<and> nested_group c = nested_group d
                                \<and> array_sizes c \<noteq> array_sizes d)"
  by (simp add: mismatched_def list_ex_iff)

lemma first_of_group_None: "first_of_group g seen = None \<longleftrightarrow> (\<forall>c\<in>set seen. nested_group c \<noteq> Some g)"
  by (induction seen) auto

lemma first_of_group_Some: "first_of_group g seen = Some f \<Longrightarrow> f \<in> set seen \<and> nested_group f = Some g"
  by (induction seen) (auto split: if_splits)

lemma mismatched_snoc:
  assumes "\<not> mismatched seen"
    and "\<And>d. d \<in> set seen \<Longrightarrow> nested_group c \<noteq> None \<Longrightarrow> nested_group d = nested_group c \<Longrightarrow> array_sizes d = array_sizes c"
  shows "\<not> mismatched (seen @ [c])"
proof
  assume "mismatched (seen @ [c])"
  then obtain a b where a': "a \<in> set (seen @ [c])" and b': "b \<in> set (seen @ [c])"
    and g: "nested_group a \<noteq> None" "nested_group a = nested_group b"
    and s: "array_sizes a \<noteq> array_sizes b"
    unfolding mismatched_iff by blast
  from a' have a: "a \<in> set seen \<or> a = c" by auto
  from b' have b: "b \<in> set seen \<or> b = c" by auto
  from a b show False
  proof (elim disjE)
    assume "a \<in> set seen" "b \<in> set seen"
    with g s have "mismatched seen" unfolding mismatched_iff by blast
    with assms(1) show False by blast
  next
    assume *: "a \<in> set seen" "b = c"
    from g * have c1: "nested_group c \<noteq> None" by metis
    from g * have c2: "nested_group a = nested_group c" by metis
    from assms(2)[OF *(1) c1 c2] s * show False by metis
  next
    assume *: "a = c" "b \<in> set seen"
    from g * have c1: "nested_group c \<noteq> None" by metis
    from g * have c2: "nested_group b = nested_group c" by metis
    from assms(2)[OF *(2) c1 c2] s * show False by metis
  next
    assume "a = c" "b = c"
    with s show False by blast
  qed
qed

lemma mismatched_mono: "mismatched (seen @ [c]) \<Longrightarrow> mismatched (seen @ c # cs)"
  unfolding mismatched_iff by auto

lemma validate_columns_iff:
  "\<not> mismatched seen \<Longrightarrow> validate_columns seen cs = None \<longleftrightarrow> \<not> mismatched (seen @ cs)"
proof (induction cs arbitrary: seen)
  case Nil
  then show ?case by simp
next
  case (Cons c cs)
  show ?case
  proof (cases "nested_group c")
    case None
    have "\<not> mismatched (seen @ [c])"
      using Cons.prems None by (intro mismatched_snoc) blast+
    from Cons.IH[OF this] show ?thesis using None by simp
  next
    case (Some g)
    note grp = Some
    show ?thesis
    proof (cases "first_of_group g seen")
      case None
      then have "\<And>d. d \<in> set seen \<Longrightarrow> nested_group d \<noteq> nested_group c"
        using grp by (simp add: first_of_group_None)
      then have "\<not> mismatched (seen @ [c])"
        using Cons.prems by (intro mismatched_snoc) blast+
      from Cons.IH[OF this] show ?thesis using None grp by simp
    next
      case (Some f)
      note f = first_of_group_Some[OF Some]
      show ?thesis
      proof (cases "array_sizes f = array_sizes c")
        case True
        have same: "array_sizes d = array_sizes c" if "d \<in> set seen" "nested_group d = nested_group c" for d
        proof -
          have "nested_group f \<noteq> None" "nested_group f = nested_group d"
            using f that grp by simp_all
          with Cons.prems f that(1) have "array_sizes f = array_sizes d"
            unfolding mismatched_iff by blast
          then show ?thesis using True by simp
        qed
        have "\<not> mismatched (seen @ [c])"
          using Cons.prems same by (intro mismatched_snoc) blast+
        from Cons.IH[OF this] show ?thesis using True Some grp by simp
      next
        case False
        have "mismatched (seen @ [c])"
          unfolding mismatched_iff using False f grp by auto
        then have "mismatched (seen @ c # cs)" by (rule mismatched_mono)
        then show ?thesis using False Some grp by simp
      qed
    qed
  qed
qed

lemma validateArraySizes_iff: "validateArraySizes b = None \<longleftrightarrow> \<not> mismatched b"
  using validate_columns_iff[of "[]" b] by (simp add: validateArraySizes_def mismatched_def)

lemma validate_columns_exn:
  "validate_columns seen cs = Some x \<Longrightarrow> x = Exception ''SIZES_OF_ARRAYS_DOESNT_MATCH''"
  by (induction cs arbitrary: seen) (auto split: option.splits if_splits)

text \<open>C8. A block whose nested sibling columns have different array sizes makes \<^verbatim>\<open>write\<close>
  throw the shape error before anything else happens: the world is the one before the
  call, so neither the direct sink nor the sink of a view has received a call, and the
  writer with its view records is unchanged. This holds for every writer, environment,
  schedule and thread.\<close>

theorem write_rejects_mismatched_block:
  "mismatched blk \<Longrightarrow>
     write_block e sched t blk w wd = (w, wd, Thrown (Exception ''SIZES_OF_ARRAYS_DOESNT_MATCH''))"
proof -
  assume "mismatched blk"
  then obtain x where x: "validateArraySizes blk = Some x"
    using validateArraySizes_iff[of blk] by (cases "validateArraySizes blk") simp_all
  then have "x = Exception ''SIZES_OF_ARRAYS_DOESNT_MATCH''"
    unfolding validateArraySizes_def by (rule validate_columns_exn)
  with x show ?thesis by (simp add: write_block_def)
qed

theorem write_rejects_mismatched_block_witness:
  "mismatched ragged_block \<and>
   write_block (failing_env (SinkWrite 0 ragged_block) (Other ''unreached'')) [] 0 ragged_block
       (table_writer two_views) idle_world
     = (table_writer two_views, idle_world, Thrown (Exception ''SIZES_OF_ARRAYS_DOESNT_MATCH''))"
proof -
  have h: "mismatched ragged_block" by code_simp
  show ?thesis using h write_rejects_mismatched_block[OF h] by simp
qed

subsection \<open>The thread-local slot\<close>

text \<open>No call on a collaborator changes \<^verbatim>\<open>current_thread\<close>, and a stage runner puts back
  what it found: every part of the writer leaves the slots as they were.\<close>

lemma invoke_slot: "current_thread (fst (invoke e c wd)) = current_thread wd"
  by (simp add: invoke_def)

lemma push_blocks_slot: "current_thread (fst (push_blocks e s bs wd)) = current_thread wd"
proof (induction bs arbitrary: wd)
  case Nil
  show ?case by simp
next
  case (Cons b bs)
  show ?case
  proof (cases "block_bool b")
    case False
    then show ?thesis by simp
  next
    case True
    show ?thesis
    proof (cases "validateArraySizes b")
      case (Some x)
      then show ?thesis using True by simp
    next
      case None
      show ?thesis
      proof (cases "snd (invoke e (SinkWrite s b) wd)")
        case (Some x)
        then show ?thesis using True None invoke_slot[of e "SinkWrite s b" wd]
          by (simp add: case_prod_beta)
      next
        case None2: None
        then show ?thesis using True None invoke_slot[of e "SinkWrite s b" wd] Cons.IH
          by (simp add: case_prod_beta)
      qed
    qed
  qed
qed

lemma process_body_slot: "current_thread (fst (process_body e blk view wd)) = current_thread wd"
proof (cases "query view")
  case None
  then show ?thesis by (simp add: process_body_def push_blocks_slot)
next
  case (Some q)
  then show ?thesis
    by (simp add: process_body_def Let_def case_prod_beta push_blocks_slot split: option.split)
qed

lemma run_stage_slot:
  assumes "\<And>wd'. current_thread (fst (body wd')) = current_thread wd'"
  shows "current_thread (snd (run_stage e t body done text view wd)) = current_thread wd"
proof -
  have "(current_thread (fst (body (wd\<lparr>current_thread := (current_thread wd)(t := Some (thread_status (runtime_stats view)))\<rparr>))))
         (t := current_thread wd t) = current_thread wd"
    by (simp add: assms)
  then show ?thesis
    by (simp add: run_stage_def Let_def case_prod_beta)
qed

lemma process_slot: "current_thread (snd (process e t blk view wd)) = current_thread wd"
  unfolding process_def by (rule run_stage_slot) (rule process_body_slot)

lemma process_prefix_slot: "current_thread (snd (process_prefix e t view wd)) = current_thread wd"
  unfolding process_prefix_def by (rule run_stage_slot) (rule invoke_slot)

lemma process_suffix_slot: "current_thread (snd (process_suffix e t view wd)) = current_thread wd"
  unfolding process_suffix_def by (rule run_stage_slot) (rule invoke_slot)

lemma sequential_loop_slot:
  assumes "\<And>view wd'. current_thread (snd (stage view wd')) = current_thread wd'"
  shows "current_thread (fst (snd (sequential_loop stage vs wd))) = current_thread wd"
proof (induction vs arbitrary: wd)
  case Nil
  show ?case by simp
next
  case (Cons v vs)
  show ?case using assms[of v wd] Cons.IH[of "snd (stage v wd)"]
    by (simp add: case_prod_beta Let_def)
qed

lemma advance_slot:
  assumes "\<And>t' view wd'. current_thread (snd (stage t' view wd')) = current_thread wd'"
  shows "current_thread (pool_world (advance stage t p j)) = current_thread (pool_world p)"
  using assms by (simp add: advance_def case_prod_beta Let_def split: job.split)

lemma foldl_advance_slot:
  assumes "\<And>t' view wd'. current_thread (snd (stage t' view wd')) = current_thread wd'"
  shows "current_thread (pool_world (foldl (advance stage t) p js)) = current_thread (pool_world p)"
proof (induction js arbitrary: p)
  case Nil
  show ?case by simp
next
  case (Cons j js)
  show ?case using Cons.IH[of "advance stage t p j"] advance_slot[where stage=stage and t=t and p=p and j=j, OF assms]
    by simp
qed

lemma run_pool_slot:
  assumes "\<And>t' view wd'. current_thread (snd (stage t' view wd')) = current_thread wd'"
  shows "current_thread (fst (snd (run_pool stage t sched vs wd))) = current_thread wd"
  using foldl_advance_slot[where stage=stage, OF assms] by (simp add: run_pool_def Let_def)

lemma log_query_views_slot: "current_thread (log_query_views w wd) = current_thread wd"
  by (simp add: log_query_views_def Let_def)

lemma check_exceptions_loop_slot:
  "current_thread (fst (check_exceptions_loop w vs wd)) = current_thread wd"
  by (induction vs) (simp_all add: log_query_views_slot split: option.split)

lemma check_exceptions_in_views_slot:
  "current_thread (fst (check_exceptions_in_views w wd)) = current_thread wd"
  by (simp add: check_exceptions_in_views_def check_exceptions_loop_slot)

lemma run_views_slot:
  assumes "\<And>t' view wd'. current_thread (snd (stage t' view wd')) = current_thread wd'"
  shows "current_thread (fst (snd (run_views sched t stage w wd))) = current_thread wd"
proof (cases "pool_threads w > 1")
  case True
  then show ?thesis
    using run_pool_slot[where stage=stage and t=t and sched=sched and vs="views w" and wd=wd, OF assms]
    by (simp add: run_views_def)
next
  case False
  then show ?thesis
    using sequential_loop_slot[where stage="stage t" and vs="views w" and wd=wd, OF assms]
    by (simp add: run_views_def)
qed

lemma fan_out_slot:
  assumes "\<And>t' view wd'. current_thread (snd (stage t' view wd')) = current_thread wd'"
  shows "current_thread (fst (snd (fan_out sched t stage w wd))) = current_thread wd"
  using run_views_slot[where stage=stage and t=t and sched=sched and w=w and wd=wd, OF assms]
  by (simp add: fan_out_def Let_def case_prod_beta check_exceptions_in_views_slot)

lemma on_output_slot: "current_thread (fst (on_output e m w wd)) = current_thread wd"
  by (simp add: on_output_def invoke_slot split: option.split)

lemma write_to_storage_slot:
  "current_thread (fst (write_to_storage e blk w wd)) = current_thread wd"
  by (simp add: write_to_storage_def invoke_slot on_output_slot)

lemma write_block_slot:
  "current_thread (fst (snd (write_block e sched t blk w wd))) = current_thread wd"
proof -
  have "current_thread (fst (snd (fan_out sched t (\<lambda>t'. process e t' blk) w wd1))) = current_thread wd1" for wd1
    by (rule fan_out_slot) (rule process_slot)
  then show ?thesis
    using write_to_storage_slot[of e blk w wd]
    by (simp add: write_block_def Let_def case_prod_beta split: option.split)
qed

lemma writePrefix_slot:
  "current_thread (fst (snd (writePrefix e handled t w wd))) = current_thread wd"
proof -
  have "current_thread (fst (snd (sequential_loop (process_prefix e t) (views w) wd1))) = current_thread wd1" for wd1
    by (rule sequential_loop_slot) (rule process_prefix_slot)
  then show ?thesis
    by (simp add: writePrefix_def Let_def case_prod_beta on_output_slot log_query_views_slot
        split: option.split)
qed

lemma writeSuffix_slot:
  "current_thread (fst (snd (writeSuffix e sched t w wd))) = current_thread wd"
proof -
  have "current_thread (fst (snd (fan_out sched t (process_suffix e) w wd1))) = current_thread wd1" for wd1
    by (rule fan_out_slot) (rule process_suffix_slot)
  then show ?thesis
    by (simp add: writeSuffix_def Let_def case_prod_beta on_output_slot log_query_views_slot
        split: option.split result.split)
qed

lemma flush_views_slot: "current_thread (fst (flush_views e vs wd)) = current_thread wd"
proof (induction vs arbitrary: wd)
  case Nil
  show ?case by simp
next
  case (Cons v vs)
  show ?case using Cons.IH[of "fst (invoke e (SinkFlush (out v)) wd)"] invoke_slot[of e "SinkFlush (out v)" wd]
    by (simp add: case_prod_beta split: option.split)
qed

lemma flush_slot: "current_thread (fst (snd (flush e w wd))) = current_thread wd"
  by (simp add: flush_def Let_def case_prod_beta on_output_slot flush_views_slot split: option.split)

lemma destructor_slot: "current_thread (snd (destructor t w wd)) t = current_thread wd t"
  by (simp add: destructor_def Let_def)

text \<open>C1. For each of \<^verbatim>\<open>writePrefix\<close>, \<^verbatim>\<open>write\<close>, \<^verbatim>\<open>writeSuffix\<close>, \<^verbatim>\<open>flush\<close> and the
  destructor, called on thread \<open>t\<close>, the slot \<^verbatim>\<open>current_thread\<close> of \<open>t\<close> after the call is the
  slot before it. The statement does not depend on how the method ends (it returns, it
  throws, or \<^verbatim>\<open>std::terminate\<close> is reached), nor on the environment, the schedule of the
  pool or the state of the views.\<close>

theorem accounting_slot_restored:
  "current_thread (fst (snd (writePrefix e handled t w wd))) t = current_thread wd t
   \<and> current_thread (fst (snd (write_block e sched t blk w wd))) t = current_thread wd t
   \<and> current_thread (fst (snd (writeSuffix e sched t w wd))) t = current_thread wd t
   \<and> current_thread (fst (snd (flush e w wd))) t = current_thread wd t
   \<and> current_thread (snd (destructor t w wd)) t = current_thread wd t"
  by (simp add: writePrefix_slot write_block_slot writeSuffix_slot flush_slot destructor_slot)

theorem accounting_slot_restored_witness:
  "snd (snd (write_block (failing_env (SinkWrite 1 plain_block) (Exception ''boom'')) [] 0
               plain_block (table_writer two_views) idle_world))
     = Thrown (Exception ''boom: while pushing to view db.v1'')
   \<and> current_thread (fst (snd (write_block (failing_env (SinkWrite 1 plain_block) (Exception ''boom'')) [] 0
               plain_block (table_writer two_views) idle_world))) 0 = Some 0
   \<and> snd (snd (writeSuffix quiet_env [0, 1, 1, 0] 0 (parallel_writer two_views) idle_world)) = Returned
   \<and> current_thread (fst (snd (writeSuffix quiet_env [0, 1, 1, 0] 0 (parallel_writer two_views) idle_world))) 0
       = Some 0
   \<and> current_thread (snd (destructor 0 (table_writer two_views) idle_world)) 0 = Some 0"
proof -
  have thrown: "snd (snd (write_block (failing_env (SinkWrite 1 plain_block) (Exception ''boom'')) [] 0
               plain_block (table_writer two_views) idle_world))
     = Thrown (Exception ''boom: while pushing to view db.v1'')"
    by code_simp
  have returned: "snd (snd (writeSuffix quiet_env [0, 1, 1, 0] 0 (parallel_writer two_views) idle_world)) = Returned"
    by code_simp
  have idle: "current_thread idle_world 0 = Some 0" by (simp add: idle_world_def)
  show ?thesis
    using thrown returned idle
      accounting_slot_restored[of "failing_env (SinkWrite 1 plain_block) (Exception ''boom'')" None 0
        "table_writer two_views" idle_world "[]" plain_block]
      accounting_slot_restored[of quiet_env None 0 "parallel_writer two_views" idle_world
        "[0, 1, 1, 0]" plain_block]
    by simp
qed

subsection \<open>What a stage runner does to its view\<close>

lemma run_stage_fields:
  "table_id (fst (run_stage e t body done text view wd)) = table_id view"
  "out (fst (run_stage e t body done text view wd)) = out view"
  "query (fst (run_stage e t body done text view wd)) = query view"
  by (simp_all add: run_stage_def Let_def case_prod_beta split: option.split)

lemma run_stage_exception:
  "exception (fst (run_stage e t body done text view wd)) =
     (case snd (body (wd\<lparr>current_thread := (current_thread wd)(t := Some (thread_status (runtime_stats view)))\<rparr>)) of
        None \<Rightarrow> exception view
      | Some x \<Rightarrow> Some (capture text x))"
  by (simp add: run_stage_def Let_def case_prod_beta split: option.split)

lemma run_stage_keeps_exception:
  "exception view \<noteq> None \<Longrightarrow> exception (fst (run_stage e t body done text view wd)) \<noteq> None"
  by (simp add: run_stage_exception split: option.split)

lemma run_stage_trace:
  "trace (snd (run_stage e t body done text view wd)) =
     trace (fst (body (wd\<lparr>current_thread := (current_thread wd)(t := Some (thread_status (runtime_stats view)))\<rparr>)))"
  by (simp add: run_stage_def Let_def case_prod_beta)

lemma sublist_addMessage: "sublist name (addMessage m (text @ name))"
proof -
  have "sublist name (text @ name)" by simp
  moreover have "sublist name (m @ '': '' @ text @ name)"
    using sublist_appendI[of name "m @ '': '' @ text" "[]"] by simp
  ultimately show ?thesis by (simp add: addMessage_def)
qed

lemma run_stage_names:
  assumes "names_its_view view"
  shows "names_its_view (fst (run_stage e t body done (text @ table_id view) view wd))"
proof (cases "snd (body (wd\<lparr>current_thread := (current_thread wd)(t := Some (thread_status (runtime_stats view)))\<rparr>))")
  case None
  then show ?thesis using assms
    by (auto simp add: names_its_view_def run_stage_exception run_stage_fields split: option.splits exn.splits)
next
  case (Some x)
  then show ?thesis
    by (cases x) (simp_all add: names_its_view_def run_stage_exception run_stage_fields sublist_addMessage)
qed

lemma process_keeps_exception:
  "exception view \<noteq> None \<Longrightarrow> exception (fst (process e t blk view wd)) \<noteq> None"
  unfolding process_def by (rule run_stage_keeps_exception)

lemma process_prefix_keeps_exception:
  "exception view \<noteq> None \<Longrightarrow> exception (fst (process_prefix e t view wd)) \<noteq> None"
  unfolding process_prefix_def by (rule run_stage_keeps_exception)

lemma process_suffix_keeps_exception:
  "exception view \<noteq> None \<Longrightarrow> exception (fst (process_suffix e t view wd)) \<noteq> None"
  unfolding process_suffix_def by (rule run_stage_keeps_exception)

lemma process_names: "names_its_view view \<Longrightarrow> names_its_view (fst (process e t blk view wd))"
  unfolding process_def by (rule run_stage_names)

lemma process_prefix_names: "names_its_view view \<Longrightarrow> names_its_view (fst (process_prefix e t view wd))"
  unfolding process_prefix_def by (rule run_stage_names)

lemma process_suffix_names: "names_its_view view \<Longrightarrow> names_its_view (fst (process_suffix e t view wd))"
  unfolding process_suffix_def by (rule run_stage_names)

lemma process_prefix_trace:
  "trace (snd (process_prefix e t view wd)) = trace wd @ [SinkWritePrefix (out view)]"
  by (simp add: process_prefix_def run_stage_trace invoke_def)

lemma process_suffix_trace:
  "trace (snd (process_suffix e t view wd)) = trace wd @ [SinkWriteSuffix (out view)]"
  by (simp add: process_suffix_def run_stage_trace invoke_def)

lemma process_trace_plain:
  assumes "query view = None" "block_bool blk" "validateArraySizes blk = None"
  shows "trace (snd (process e t blk view wd)) = trace wd @ [SinkWrite (out view) blk]"
  using assms
  by (simp add: process_def run_stage_trace process_body_def invoke_def split: option.split)

subsection \<open>The loop over the views\<close>

lemma sequential_loop_length:
  "length (fst (sequential_loop stage vs wd)) = length vs"
  by (induction vs arbitrary: wd) (simp_all add: case_prod_beta Let_def)

lemma sequential_loop_happened:
  "snd (snd (sequential_loop stage vs wd)) \<longleftrightarrow>
     (\<exists>v\<in>set (fst (sequential_loop stage vs wd)). exception v \<noteq> None)"
proof (induction vs arbitrary: wd)
  case Nil
  show ?case by simp
next
  case (Cons v vs)
  show ?case
  proof (cases "exception (fst (stage v wd)) \<noteq> None")
    case True
    then show ?thesis by (simp add: case_prod_beta Let_def)
  next
    case False
    then show ?thesis using Cons.IH[of "snd (stage v wd)"]
      by (simp add: case_prod_beta Let_def)
  qed
qed

lemma sequential_loop_rest_untouched:
  "drop (Suc (length (takeWhile (\<lambda>v. exception v = None) (fst (sequential_loop stage vs wd)))))
        (fst (sequential_loop stage vs wd))
   = drop (Suc (length (takeWhile (\<lambda>v. exception v = None) (fst (sequential_loop stage vs wd))))) vs"
proof (induction vs arbitrary: wd)
  case Nil
  show ?case by simp
next
  case (Cons v vs)
  show ?case
  proof (cases "exception (fst (stage v wd)) \<noteq> None")
    case True
    then show ?thesis by (simp add: case_prod_beta Let_def)
  next
    case False
    then show ?thesis using Cons.IH[of "snd (stage v wd)"]
      by (simp add: case_prod_beta Let_def)
  qed
qed

lemma sequential_loop_truncated:
  "n = length (takeWhile (\<lambda>v. exception v = None) (fst (sequential_loop stage vs wd))) \<Longrightarrow>
   sequential_loop stage (take (Suc n) vs) wd =
     (take (Suc n) (fst (sequential_loop stage vs wd)), snd (sequential_loop stage vs wd))"
proof (induction vs arbitrary: wd n)
  case Nil
  show ?case by simp
next
  case (Cons v vs)
  show ?case
  proof (cases "exception (fst (stage v wd)) \<noteq> None")
    case True
    with Cons.prems have "n = 0" by (simp add: case_prod_beta Let_def)
    with True show ?thesis by (simp add: case_prod_beta Let_def)
  next
    case False
    define n' where "n' = length (takeWhile (\<lambda>v. exception v = None)
                            (fst (sequential_loop stage vs (snd (stage v wd)))))"
    from False Cons.prems have n: "n = Suc n'"
      by (simp add: case_prod_beta Let_def n'_def)
    have IH: "sequential_loop stage (take (Suc n') vs) (snd (stage v wd)) =
        (take (Suc n') (fst (sequential_loop stage vs (snd (stage v wd)))),
         snd (sequential_loop stage vs (snd (stage v wd))))"
      by (rule Cons.IH) (simp add: n'_def)
    show ?thesis
      unfolding n using False IH by (simp add: case_prod_beta Let_def)
  qed
qed

lemma sequential_loop_list_all:
  assumes "\<And>v wd'. P v \<Longrightarrow> P (fst (stage v wd'))"
  shows "list_all P vs \<Longrightarrow> list_all P (fst (sequential_loop stage vs wd))"
proof (induction vs arbitrary: wd)
  case Nil
  show ?case by simp
next
  case (Cons v vs)
  then show ?case using assms[of v wd]
    by (simp add: case_prod_beta Let_def)
qed

lemma sequential_loop_keeps_exception:
  assumes "\<And>v wd'. exception v \<noteq> None \<Longrightarrow> exception (fst (stage v wd')) \<noteq> None"
  shows "k < length vs \<Longrightarrow> exception (vs ! k) \<noteq> None \<Longrightarrow>
         exception (fst (sequential_loop stage vs wd) ! k) \<noteq> None"
proof (induction vs arbitrary: wd k)
  case Nil
  then show ?case by simp
next
  case (Cons v vs)
  show ?case
  proof (cases k)
    case 0
    then show ?thesis using Cons.prems assms[of v wd] by (simp add: case_prod_beta Let_def)
  next
    case (Suc k')
    then show ?thesis using Cons.prems Cons.IH[of k' "snd (stage v wd)"]
      by (simp add: case_prod_beta Let_def)
  qed
qed

lemma sequential_loop_trace:
  assumes "\<And>v wd'. trace (snd (stage v wd')) = trace wd' @ [F v]"
  shows "trace (fst (snd (sequential_loop stage vs wd))) =
     trace wd @ map F (take (Suc (length (takeWhile (\<lambda>v. exception v = None)
                                      (fst (sequential_loop stage vs wd))))) vs)"
proof (induction vs arbitrary: wd)
  case Nil
  show ?case by simp
next
  case (Cons v vs)
  show ?case
  proof (cases "exception (fst (stage v wd)) \<noteq> None")
    case True
    then show ?thesis using assms[of v wd] by (simp add: case_prod_beta Let_def)
  next
    case False
    then show ?thesis using assms[of v wd] Cons.IH[of "snd (stage v wd)"]
      by (simp add: case_prod_beta Let_def)
  qed
qed

subsection \<open>The pool\<close>

lemma advance_views:
  "pool_views (advance stage t p j) =
     (if j < length (jobs p) \<and> j < length (pool_views p) \<and> jobs p ! j = Started
      then (pool_views p)[j := fst (stage (worker t j) (pool_views p ! j) (pool_world p))]
      else pool_views p)"
  by (simp add: advance_def case_prod_beta Let_def split: job.split)

lemma advance_count:
  "exception_count (advance stage t p j) =
     (if j < length (jobs p) \<and> j < length (pool_views p) \<and> jobs p ! j = Started
         \<and> exception (fst (stage (worker t j) (pool_views p ! j) (pool_world p))) \<noteq> None
      then exception_count p + 1 else exception_count p)"
  by (simp add: advance_def case_prod_beta Let_def split: job.split)

lemma advance_idle:
  assumes "\<not> (j < length (jobs p) \<and> j < length (pool_views p) \<and> jobs p ! j = Started)"
  shows "pool_views (advance stage t p j) = pool_views p"
    and "exception_count (advance stage t p j) = exception_count p"
  using assms by (auto simp: advance_views advance_count)

lemma advance_run:
  assumes "j < length (jobs p) \<and> j < length (pool_views p) \<and> jobs p ! j = Started"
  shows "pool_views (advance stage t p j) =
           (pool_views p)[j := fst (stage (worker t j) (pool_views p ! j) (pool_world p))]"
    and "exception_count (advance stage t p j) =
           (if exception (fst (stage (worker t j) (pool_views p ! j) (pool_world p))) \<noteq> None
            then exception_count p + 1 else exception_count p)"
  using assms by (auto simp: advance_views advance_count)

lemma foldl_advance_invariant:
  assumes "\<And>q j. I q \<Longrightarrow> I (advance stage t q j)" and "I p"
  shows "I (foldl (advance stage t) p js)"
  using assms(2)
proof (induction js arbitrary: p)
  case Nil
  then show ?case by simp
next
  case (Cons j js)
  from Cons.prems have "I (advance stage t p j)" by (rule assms(1))
  then have "I (foldl (advance stage t) (advance stage t p j) js)" by (rule Cons.IH)
  then show ?case by simp
qed

lemma run_pool_invariant:
  assumes step: "\<And>q j. I q \<Longrightarrow> I (advance stage t q j)"
    and init: "I \<lparr>jobs = replicate (length vs) Scheduled, exception_count = 0,
                 pool_views = vs, pool_world = wd\<rparr>"
    and final: "\<And>q. I q \<Longrightarrow> Q (pool_views q, pool_world q, exception_count q \<noteq> 0)"
  shows "Q (run_pool stage t sched vs wd)"
proof -
  have "I (foldl (advance stage t)
            \<lparr>jobs = replicate (length vs) Scheduled, exception_count = 0,
              pool_views = vs, pool_world = wd\<rparr> (sched @ drain (length vs)))"
    using step init by (rule foldl_advance_invariant)
  then show ?thesis unfolding run_pool_def Let_def by (rule final)
qed

lemma run_pool_length: "length (fst (run_pool stage t sched vs wd)) = length vs"
proof -
  have "length (fst (run_pool stage t sched vs wd)) = length vs"
    by (rule run_pool_invariant[where I = "\<lambda>q::pool. length (pool_views q) = length vs"
          and Q = "\<lambda>r. length (fst r) = length vs"])
       (auto simp: advance_views)
  then show ?thesis .
qed

lemma run_pool_list_all:
  assumes "\<And>t' v wd'. P v \<Longrightarrow> P (fst (stage t' v wd'))" and "list_all P vs"
  shows "list_all P (fst (run_pool stage t sched vs wd))"
proof (rule run_pool_invariant[where I = "\<lambda>q::pool. list_all P (pool_views q)"
          and Q = "\<lambda>r. list_all P (fst r)"])
  fix q :: pool and j
  assume q: "list_all P (pool_views q)"
  show "list_all P (pool_views (advance stage t q j))"
  proof (cases "j < length (jobs q) \<and> j < length (pool_views q) \<and> jobs q ! j = Started")
    case True
    then have "P (pool_views q ! j)" using q by (simp add: list_all_length)
    then have "P (fst (stage (worker t j) (pool_views q ! j) (pool_world q)))" by (rule assms(1))
    then show ?thesis using q True unfolding advance_run(1)[OF True]
      by (auto simp: list_all_length nth_list_update)
  next
    case False
    then show ?thesis using q by (simp add: advance_idle(1))
  qed
next
  show "list_all P (pool_views \<lparr>jobs = replicate (length vs) Scheduled, exception_count = 0,
                 pool_views = vs, pool_world = wd\<rparr>)"
    using assms(2) by simp
next
  fix q :: pool assume "list_all P (pool_views q)"
  then show "list_all P (fst (pool_views q, pool_world q, exception_count q \<noteq> 0))" by simp
qed

lemma run_pool_keeps_exception:
  assumes keep: "\<And>t' v wd'. exception v \<noteq> None \<Longrightarrow> exception (fst (stage t' v wd')) \<noteq> None"
    and k: "k < length vs" "exception (vs ! k) \<noteq> None"
  shows "exception (fst (run_pool stage t sched vs wd) ! k) \<noteq> None"
proof (rule run_pool_invariant[where
          I = "\<lambda>q::pool. length (pool_views q) = length vs \<and> exception (pool_views q ! k) \<noteq> None"
          and Q = "\<lambda>r. exception (fst r ! k) \<noteq> None"])
  fix q :: pool and j
  assume q: "length (pool_views q) = length vs \<and> exception (pool_views q ! k) \<noteq> None"
  show "length (pool_views (advance stage t q j)) = length vs
        \<and> exception (pool_views (advance stage t q j) ! k) \<noteq> None"
  proof (cases "j < length (jobs q) \<and> j < length (pool_views q) \<and> jobs q ! j = Started")
    case True
    show ?thesis
    proof (cases "j = k")
      case True2: True
      have "exception (fst (stage (worker t k) (pool_views q ! k) (pool_world q))) \<noteq> None"
        using q by (intro keep) simp
      then show ?thesis using True2 q k(1) unfolding advance_run(1)[OF True] by simp
    next
      case False
      then show ?thesis using q unfolding advance_run(1)[OF True] by simp
    qed
  next
    case False
    then show ?thesis using q by (simp add: advance_idle(1))
  qed
next
  show "length (pool_views \<lparr>jobs = replicate (length vs) Scheduled, exception_count = 0,
                 pool_views = vs, pool_world = wd\<rparr>) = length vs \<and>
        exception (pool_views \<lparr>jobs = replicate (length vs) Scheduled, exception_count = 0,
                 pool_views = vs, pool_world = wd\<rparr> ! k) \<noteq> None"
    using k by simp
next
  fix q :: pool assume "length (pool_views q) = length vs \<and> exception (pool_views q ! k) \<noteq> None"
  then show "exception (fst (pool_views q, pool_world q, exception_count q \<noteq> 0) ! k) \<noteq> None"
    by simp
qed

lemma run_pool_happened:
  assumes keep: "\<And>t' v wd'. exception v \<noteq> None \<Longrightarrow> exception (fst (stage t' v wd')) \<noteq> None"
    and happened: "snd (snd (run_pool stage t sched vs wd))"
  shows "\<exists>v\<in>set (fst (run_pool stage t sched vs wd)). exception v \<noteq> None"
proof -
  have "snd (snd (run_pool stage t sched vs wd)) \<longrightarrow>
        (\<exists>v\<in>set (fst (run_pool stage t sched vs wd)). exception v \<noteq> None)"
  proof (rule run_pool_invariant[where
          I = "\<lambda>q::pool. exception_count q \<noteq> 0 \<longrightarrow> (\<exists>v\<in>set (pool_views q). exception v \<noteq> None)"
          and Q = "\<lambda>r. snd (snd r) \<longrightarrow> (\<exists>v\<in>set (fst r). exception v \<noteq> None)"])
    fix q :: pool and j
    assume q: "exception_count q \<noteq> 0 \<longrightarrow> (\<exists>v\<in>set (pool_views q). exception v \<noteq> None)"
    show "exception_count (advance stage t q j) \<noteq> 0 \<longrightarrow>
          (\<exists>v\<in>set (pool_views (advance stage t q j)). exception v \<noteq> None)"
    proof (cases "j < length (jobs q) \<and> j < length (pool_views q) \<and> jobs q ! j = Started")
      case False
      then show ?thesis using q by (simp add: advance_idle)
    next
      case True
      define v' where "v' = fst (stage (worker t j) (pool_views q ! j) (pool_world q))"
      have views': "pool_views (advance stage t q j) = (pool_views q)[j := v']"
        using advance_run(1)[OF True] by (simp add: v'_def)
      show ?thesis
      proof (cases "exception v' \<noteq> None")
        case True2: True
        have "v' \<in> set ((pool_views q)[j := v'])"
          using True by (simp add: set_update_memI)
        with True2 show ?thesis unfolding views' by blast
      next
        case False
        then have count: "exception_count (advance stage t q j) = exception_count q"
          using advance_run(2)[OF True, of stage t] by (simp add: v'_def)
        show ?thesis
        proof
          assume "exception_count (advance stage t q j) \<noteq> 0"
          with count q obtain u where u: "u \<in> set (pool_views q)" "exception u \<noteq> None"
            by auto
          then obtain i where i: "i < length (pool_views q)" "pool_views q ! i = u"
            by (auto simp: in_set_conv_nth)
          have "i \<noteq> j"
          proof
            assume "i = j"
            with i u have "exception (pool_views q ! j) \<noteq> None" by simp
            then have "exception v' \<noteq> None" unfolding v'_def by (rule keep)
            with False show False by simp
          qed
          with i have "(pool_views q)[j := v'] ! i = u" by simp
          moreover have "i < length ((pool_views q)[j := v'])" using i by simp
          ultimately have "u \<in> set ((pool_views q)[j := v'])"
            by (metis nth_mem)
          with u(2) show "\<exists>v\<in>set (pool_views (advance stage t q j)). exception v \<noteq> None"
            unfolding views' by blast
        qed
      qed
    qed
  next
    show "exception_count \<lparr>jobs = replicate (length vs) Scheduled, exception_count = 0,
                 pool_views = vs, pool_world = wd\<rparr> \<noteq> 0 \<longrightarrow>
          (\<exists>v\<in>set (pool_views \<lparr>jobs = replicate (length vs) Scheduled, exception_count = 0,
                 pool_views = vs, pool_world = wd\<rparr>). exception v \<noteq> None)"
      by simp
  next
    fix q :: pool
    assume "exception_count q \<noteq> 0 \<longrightarrow> (\<exists>v\<in>set (pool_views q). exception v \<noteq> None)"
    then show "snd (snd (pool_views q, pool_world q, exception_count q \<noteq> 0)) \<longrightarrow>
               (\<exists>v\<in>set (fst (pool_views q, pool_world q, exception_count q \<noteq> 0)). exception v \<noteq> None)"
      by simp
  qed
  with happened show ?thesis by simp
qed

lemma advance_jobs_length: "length (jobs (advance stage t p j)) = length (jobs p)"
  by (simp add: advance_def case_prod_beta Let_def split: job.split)

lemma advance_views_length: "length (pool_views (advance stage t p j)) = length (pool_views p)"
  by (simp add: advance_views)

lemma advance_jobs_Finished:
  "jobs p ! i = Finished \<Longrightarrow> jobs (advance stage t p j) ! i = Finished"
  by (cases "i = j") (auto simp add: advance_def case_prod_beta Let_def split: job.split)

lemma advance_jobs_self:
  assumes "j < length (jobs p)" "j < length (pool_views p)"
  shows "jobs (advance stage t p j) ! j =
           (case jobs p ! j of
              Scheduled \<Rightarrow> (if exception_count p \<noteq> 0 then Finished else Started)
            | Started \<Rightarrow> Finished
            | Finished \<Rightarrow> Finished)"
  using assms by (simp add: advance_def case_prod_beta Let_def split: job.split)

lemma advance_twice:
  assumes "j < length (jobs p)" "j < length (pool_views p)"
  shows "jobs (advance stage t (advance stage t p j) j) ! j = Finished"
proof -
  have 1: "jobs (advance stage t p j) ! j \<noteq> Scheduled"
    using assms by (simp add: advance_jobs_self split: job.split)
  have "j < length (jobs (advance stage t p j))" "j < length (pool_views (advance stage t p j))"
    using assms by (simp_all add: advance_jobs_length advance_views_length)
  then have "jobs (advance stage t (advance stage t p j) j) ! j =
           (case jobs (advance stage t p j) ! j of
              Scheduled \<Rightarrow> (if exception_count (advance stage t p j) \<noteq> 0 then Finished else Started)
            | Started \<Rightarrow> Finished
            | Finished \<Rightarrow> Finished)"
    by (rule advance_jobs_self)
  with 1 show ?thesis by (simp split: job.splits)
qed

lemma foldl_advance_lengths:
  "length (jobs (foldl (advance stage t) p js)) = length (jobs p)
   \<and> length (pool_views (foldl (advance stage t) p js)) = length (pool_views p)"
  by (induction js arbitrary: p) (simp_all add: advance_jobs_length advance_views_length)

lemma drain_Suc: "drain (Suc k) = drain k @ [k, k]"
  by (simp add: drain_def)

lemma drain_finishes:
  assumes "length (jobs p) = n" "length (pool_views p) = n"
  shows "k \<le> n \<Longrightarrow> j < k \<Longrightarrow> jobs (foldl (advance stage t) p (drain k)) ! j = Finished"
proof (induction k arbitrary: j)
  case 0
  then show ?case by simp
next
  case (Suc k)
  define q where "q = foldl (advance stage t) p (drain k)"
  have len: "length (jobs q) = n" "length (pool_views q) = n"
    using assms foldl_advance_lengths[of stage t p "drain k"] by (simp_all add: q_def)
  have fold: "foldl (advance stage t) p (drain (Suc k)) = advance stage t (advance stage t q k) k"
    by (simp add: drain_Suc q_def)
  show ?case
  proof (cases "j = k")
    case True
    have "k < length (jobs q)" "k < length (pool_views q)" using Suc.prems len by simp_all
    then show ?thesis unfolding fold True by (rule advance_twice)
  next
    case False
    with Suc.prems have "j < k" by simp
    with Suc.prems have "jobs q ! j = Finished" unfolding q_def by (intro Suc.IH) simp_all
    then show ?thesis unfolding fold by (intro advance_jobs_Finished)
  qed
qed

lemma filter_update_length:
  "j < length xs \<Longrightarrow> \<not> P (xs ! j) \<Longrightarrow> P y \<Longrightarrow>
   length (filter P (xs[j := y])) = Suc (length (filter P xs))"
proof (induction xs arbitrary: j)
  case Nil
  then show ?case by simp
next
  case (Cons x xs)
  then show ?case by (cases j) simp_all
qed

lemma filter_update_same:
  "j < length xs \<Longrightarrow> \<not> P (xs ! j) \<Longrightarrow> \<not> P y \<Longrightarrow> filter P (xs[j := y]) = filter P xs"
proof (induction xs arbitrary: j)
  case Nil
  then show ?case by simp
next
  case (Cons x xs)
  then show ?case by (cases j) simp_all
qed

lemma counted_advance:
  assumes "counted n q"
  shows "counted n (advance stage t q j)"
proof -
  from assms obtain c where len: "length (jobs q) = n" "length (pool_views q) = n"
    and c: "exception_count q = of_nat c" "c \<le> length (filter (\<lambda>s. s = Finished) (jobs q))"
    and none: "c = 0 \<Longrightarrow> j' < n \<Longrightarrow> jobs q ! j' = Finished \<Longrightarrow> exception (pool_views q ! j') = None" for j'
    unfolding counted_def by blast
  show ?thesis
  proof (cases "j < n")
    case False
    then have "advance stage t q j = q" using len by (simp add: advance_def)
    with assms show ?thesis by simp
  next
    case j: True
    show ?thesis
    proof (cases "jobs q ! j")
      case Finished
      then have "advance stage t q j = q" using len j by (simp add: advance_def)
      with assms show ?thesis by simp
    next
      case Scheduled
      show ?thesis
      proof (cases "exception_count q \<noteq> 0")
        case True
        then have adv: "advance stage t q j = q\<lparr>jobs := (jobs q)[j := Finished]\<rparr>"
          using Scheduled len j by (simp add: advance_def)
        have "c \<noteq> 0"
        proof
          assume "c = 0"
          with c(1) True show False by simp
        qed
        moreover have "length (filter (\<lambda>s. s = Finished) ((jobs q)[j := Finished]))
                        = Suc (length (filter (\<lambda>s. s = Finished) (jobs q)))"
          using j len Scheduled by (intro filter_update_length) simp_all
        ultimately show ?thesis unfolding adv counted_def using len c
          by (auto intro!: exI[of _ c])
      next
        case False
        then have adv: "advance stage t q j = q\<lparr>jobs := (jobs q)[j := Started]\<rparr>"
          using Scheduled len j by (simp add: advance_def)
        have same: "filter (\<lambda>s. s = Finished) ((jobs q)[j := Started]) = filter (\<lambda>s. s = Finished) (jobs q)"
          using j len Scheduled by (intro filter_update_same) simp_all
        have fin: "((jobs q)[j := Started]) ! j' = Finished \<longleftrightarrow> jobs q ! j' = Finished" if "j' < n" for j'
          using that j len Scheduled by (cases "j' = j") simp_all
        show ?thesis unfolding adv counted_def using len c same fin none
          by (auto intro!: exI[of _ c])
      qed
    next
      case Started
      define v' where "v' = fst (stage (worker t j) (pool_views q ! j) (pool_world q))"
      define wd' where "wd' = snd (stage (worker t j) (pool_views q ! j) (pool_world q))"
      have adv: "advance stage t q j =
          q\<lparr>jobs := (jobs q)[j := Finished],
            exception_count := (if exception v' \<noteq> None then exception_count q + 1 else exception_count q),
            pool_views := (pool_views q)[j := v'],
            pool_world := wd'\<rparr>"
        using Started len j by (simp add: advance_def case_prod_beta v'_def wd'_def)
      have more: "length (filter (\<lambda>s. s = Finished) ((jobs q)[j := Finished]))
                        = Suc (length (filter (\<lambda>s. s = Finished) (jobs q)))"
        using j len Started by (intro filter_update_length) simp_all
      show ?thesis
      proof (cases "exception v' \<noteq> None")
        case True
        have "exception_count q + 1 = of_nat (Suc c)" using c(1) by simp
        then show ?thesis unfolding adv counted_def using True len c more
          by (auto intro!: exI[of _ "Suc c"])
      next
        case False
        have keep: "exception (((pool_views q)[j := v']) ! j') = None"
          if "c = 0" "j' < n" "((jobs q)[j := Finished]) ! j' = Finished" for j'
        proof (cases "j' = j")
          case True
          then show ?thesis using False j len by simp
        next
          case False
          then show ?thesis using that none[of j'] j len by simp
        qed
        show ?thesis unfolding adv counted_def using False len c more keep
          by (auto intro!: exI[of _ c])
      qed
    qed
  qed
qed

lemma run_pool_counts:
  assumes small: "length vs < 256"
    and some: "\<exists>v\<in>set (fst (run_pool stage t sched vs wd)). exception v \<noteq> None"
  shows "snd (snd (run_pool stage t sched vs wd))"
proof -
  define p0 where "p0 = \<lparr>jobs = replicate (length vs) Scheduled, exception_count = 0,
                 pool_views = vs, pool_world = wd\<rparr>"
  define q1 where "q1 = foldl (advance stage t) p0 sched"
  define q where "q = foldl (advance stage t) q1 (drain (length vs))"
  have run: "run_pool stage t sched vs wd = (pool_views q, pool_world q, exception_count q \<noteq> 0)"
    by (simp add: run_pool_def Let_def q_def q1_def p0_def)
  have "counted (length vs) p0"
    unfolding counted_def p0_def by (auto intro!: exI[of _ 0])
  then have "counted (length vs) q1" unfolding q1_def
    by (intro foldl_advance_invariant[where I = "counted (length vs)"] counted_advance)
  then have cq: "counted (length vs) q" unfolding q_def
    by (intro foldl_advance_invariant[where I = "counted (length vs)"] counted_advance)
  have len1: "length (jobs q1) = length vs" "length (pool_views q1) = length vs"
    using \<open>counted (length vs) q1\<close> unfolding counted_def by blast+
  have finished: "jobs q ! j = Finished" if "j < length vs" for j
    unfolding q_def using len1 that by (intro drain_finishes[where n = "length vs"]) simp_all
  from cq obtain c where len: "length (jobs q) = length vs" "length (pool_views q) = length vs"
    and c: "exception_count q = of_nat c" "c \<le> length (filter (\<lambda>s. s = Finished) (jobs q))"
    and none: "c = 0 \<Longrightarrow> j' < length vs \<Longrightarrow> jobs q ! j' = Finished \<Longrightarrow> exception (pool_views q ! j') = None" for j'
    unfolding counted_def by blast
  from some obtain j where j: "j < length vs" "exception (pool_views q ! j) \<noteq> None"
    unfolding run using len by (auto simp: in_set_conv_nth)
  with none[of j] finished[of j] have "c \<noteq> 0" by blast
  moreover have "c < 256"
  proof -
    have "length (filter (\<lambda>s. s = Finished) (jobs q)) \<le> length (jobs q)" by (rule length_filter_le)
    with c(2) len small show ?thesis by simp
  qed
  ultimately have "(of_nat c :: 8 word) \<noteq> 0"
  proof -
    assume "c \<noteq> 0" "c < 256"
    then have "\<not> (256::nat) dvd c" by (auto dest: dvd_imp_le)
    then show ?thesis by (simp add: word_of_nat_eq_0_iff)
  qed
  with c(1) show ?thesis unfolding run by simp
qed

subsection \<open>Collecting the exceptions of the views\<close>

lemma check_exceptions_loop_find:
  "check_exceptions_loop w vs wd =
     (case find (\<lambda>v. exception v \<noteq> None) vs of
        None \<Rightarrow> (wd, Returned)
      | Some v \<Rightarrow> (log_query_views w wd, Thrown (the (exception v))))"
  by (induction vs) (auto split: option.splits)

lemma run_views_length: "length (fst (run_views sched t stage w wd)) = length (views w)"
  by (simp add: run_views_def run_pool_length sequential_loop_length)

lemma run_views_list_all:
  assumes "\<And>t' v wd'. P v \<Longrightarrow> P (fst (stage t' v wd'))" and "list_all P (views w)"
  shows "list_all P (fst (run_views sched t stage w wd))"
proof (cases "pool_threads w > 1")
  case True
  then show ?thesis
    using run_pool_list_all[where P=P and stage=stage and vs="views w", OF assms]
    by (simp add: run_views_def)
next
  case False
  then show ?thesis
    using sequential_loop_list_all[where P=P and stage="stage t" and vs="views w", OF assms]
    by (simp add: run_views_def)
qed

lemma run_views_keeps_exception:
  assumes "\<And>t' v wd'. exception v \<noteq> None \<Longrightarrow> exception (fst (stage t' v wd')) \<noteq> None"
    and "k < length (views w)" "exception (views w ! k) \<noteq> None"
  shows "exception (fst (run_views sched t stage w wd) ! k) \<noteq> None"
proof (cases "pool_threads w > 1")
  case True
  then show ?thesis
    using run_pool_keeps_exception[where stage=stage and vs="views w" and k=k, OF assms]
    by (simp add: run_views_def)
next
  case False
  then show ?thesis
    using sequential_loop_keeps_exception[where stage="stage t" and vs="views w" and k=k, OF assms]
    by (simp add: run_views_def)
qed

lemma run_views_happened:
  assumes "pool_threads w \<le> 1 \<or> length (views w) < 256"
    and "\<exists>v\<in>set (fst (run_views sched t stage w wd)). exception v \<noteq> None"
  shows "snd (snd (run_views sched t stage w wd))"
proof (cases "pool_threads w > 1")
  case True
  with assms(1) have "length (views w) < 256" by simp
  then show ?thesis
    using run_pool_counts[of "views w" stage t sched wd] assms(2) True
    by (simp add: run_views_def)
next
  case False
  then show ?thesis
    using sequential_loop_happened[of "stage t" "views w" wd] assms(2)
    by (simp add: run_views_def)
qed

lemma find_first_exception:
  assumes "\<exists>v\<in>set vs. exception v \<noteq> None"
  obtains view x where "find (\<lambda>v. exception v \<noteq> None) vs = Some view" "exception view = Some x"
    "view \<in> set vs"
proof -
  from assms have "find (\<lambda>v. exception v \<noteq> None) vs \<noteq> None"
    by (auto simp: find_None_iff)
  then obtain view where f: "find (\<lambda>v. exception v \<noteq> None) vs = Some view" by blast
  then have "exception view \<noteq> None" "view \<in> set vs"
    by (auto simp: find_Some_iff)
  with f that show ?thesis by blast
qed

lemma fan_out_rethrows:
  assumes names: "\<And>t' v wd'. names_its_view v \<Longrightarrow> names_its_view (fst (stage t' v wd'))"
    and named: "list_all names_its_view (views w)"
    and bound: "pool_threads w \<le> 1 \<or> length (views w) < 256"
    and captured: "\<exists>v\<in>set (fst (run_views sched t stage w wd)). exception v \<noteq> None"
  shows "\<exists>view x. find (\<lambda>v. exception v \<noteq> None) (fst (run_views sched t stage w wd)) = Some view
           \<and> exception view = Some x
           \<and> (\<forall>m. x = Exception m \<longrightarrow> sublist (table_id view) m)
           \<and> fan_out sched t stage w wd =
               (w\<lparr>views := fst (run_views sched t stage w wd)\<rparr>,
                log_query_views (w\<lparr>views := fst (run_views sched t stage w wd)\<rparr>)
                  (fst (snd (run_views sched t stage w wd))),
                Thrown x)"
proof -
  define vs' where "vs' = fst (run_views sched t stage w wd)"
  define wd' where "wd' = fst (snd (run_views sched t stage w wd))"
  have happened: "snd (snd (run_views sched t stage w wd))"
    using bound captured by (rule run_views_happened)
  from captured obtain view x where first: "find (\<lambda>v. exception v \<noteq> None) vs' = Some view"
    "exception view = Some x" "view \<in> set vs'"
    unfolding vs'_def by (rule find_first_exception)
  have "list_all names_its_view vs'"
    unfolding vs'_def using names named by (rule run_views_list_all)
  with first(3) have "names_its_view view" by (simp add: list_all_iff)
  with first(2) have msg: "\<forall>m. x = Exception m \<longrightarrow> sublist (table_id view) m"
    by (auto simp: names_its_view_def)
  have "fan_out sched t stage w wd = (w\<lparr>views := vs'\<rparr>, log_query_views (w\<lparr>views := vs'\<rparr>) wd', Thrown x)"
    using happened first(1,2)
    by (simp add: fan_out_def case_prod_beta Let_def check_exceptions_in_views_def
        check_exceptions_loop_find vs'_def wd'_def)
  with first msg show ?thesis unfolding vs'_def wd'_def by blast
qed

subsection \<open>The single-threaded loop of \<^verbatim>\<open>write\<close>\<close>

lemma fan_out_views:
  "views (fst (fan_out sched t stage w wd)) = fst (run_views sched t stage w wd)"
  by (simp add: fan_out_def case_prod_beta Let_def)

lemma write_block_views:
  "views (fst (write_block e sched t blk w wd)) = views w
   \<or> views (fst (write_block e sched t blk w wd))
        = fst (run_views sched t (\<lambda>t'. process e t' blk) w (fst (write_to_storage e blk w wd)))"
  by (simp add: write_block_def case_prod_beta Let_def fan_out_views split: option.split)

lemma first_failed_rest_untouched:
  "drop (Suc (first_failed (fst (sequential_loop stage vs wd)))) (fst (sequential_loop stage vs wd))
     = drop (Suc (first_failed (fst (sequential_loop stage vs wd)))) vs"
  unfolding first_failed_def by (rule sequential_loop_rest_untouched)

lemma pool_threads_parallel_off:
  "\<not> parallel_view_processing (getContext w) \<Longrightarrow> pool_threads w \<le> 1"
  by (simp add: pool_threads_def)

text \<open>C10. In the single-threaded branch (\<open>pool_threads w \<le> 1\<close>, which holds whenever
  \<^verbatim>\<open>parallel_view_processing\<close> is off) \<^verbatim>\<open>write\<close> leaves the loop at the first view that
  holds an exception. With \<open>n\<close> the position of that view after the call: the list of
  views keeps its length and the records after position \<open>n\<close> are the ones from before the
  call, status, exception and elapsed time included. And, from any world, the loop over
  all the views is the loop over the first \<open>n + 1\<close> of them: same world, hence same calls
  on the collaborators, same flag, same records. Nothing is run for the views after \<open>n\<close>.\<close>

theorem write_single_thread_stops_at_first_exception:
  assumes single: "pool_threads w \<le> 1"
  shows "length (views (fst (write_block e sched t blk w wd))) = length (views w)
    \<and> drop (Suc (first_failed (views (fst (write_block e sched t blk w wd)))))
           (views (fst (write_block e sched t blk w wd)))
        = drop (Suc (first_failed (views (fst (write_block e sched t blk w wd))))) (views w)
    \<and> (\<forall>wd1. let done = run_views sched t (\<lambda>t'. process e t' blk) w wd1;
                  n = first_failed (fst done)
              in sequential_loop (process e t blk) (take (Suc n) (views w)) wd1
                   = (take (Suc n) (fst done), snd done))"
proof -
  have seq: "run_views sched t (\<lambda>t'. process e t' blk) w wd1
               = sequential_loop (process e t blk) (views w) wd1" for wd1
    using single by (simp add: run_views_def)
  have len: "length (views (fst (write_block e sched t blk w wd))) = length (views w)"
    using write_block_views[of e sched t blk w wd] by (auto simp: run_views_length)
  have rest: "drop (Suc (first_failed (views (fst (write_block e sched t blk w wd)))))
           (views (fst (write_block e sched t blk w wd)))
        = drop (Suc (first_failed (views (fst (write_block e sched t blk w wd))))) (views w)"
    using write_block_views[of e sched t blk w wd]
  proof
    assume "views (fst (write_block e sched t blk w wd)) = views w"
    then show ?thesis by simp
  next
    assume "views (fst (write_block e sched t blk w wd))
        = fst (run_views sched t (\<lambda>t'. process e t' blk) w (fst (write_to_storage e blk w wd)))"
    then show ?thesis unfolding seq by (simp only: first_failed_rest_untouched)
  qed
  have trunc: "sequential_loop (process e t blk)
                 (take (Suc (first_failed (fst (run_views sched t (\<lambda>t'. process e t' blk) w wd1)))) (views w)) wd1
        = (take (Suc (first_failed (fst (run_views sched t (\<lambda>t'. process e t' blk) w wd1))))
             (fst (run_views sched t (\<lambda>t'. process e t' blk) w wd1)),
           snd (run_views sched t (\<lambda>t'. process e t' blk) w wd1))" for wd1
    unfolding seq first_failed_def by (rule sequential_loop_truncated) simp
  from len rest trunc show ?thesis by (simp add: Let_def)
qed

theorem write_single_thread_stops_at_first_exception_witness:
  "\<not> parallel_view_processing (getContext (table_writer two_views))
   \<and> pool_threads (table_writer two_views) \<le> 1
   \<and> first_failed (views (fst failed_write)) = 0
   \<and> length (views (fst failed_write)) = 2
   \<and> drop 1 (views (fst failed_write)) = [fresh_view ''db.v2'' 2]
   \<and> trace (fst (snd failed_write))
       = [SinkWrite 0 plain_block, SinkWrite 1 plain_block,
          LogToQueryViewsLog (views (fst failed_write) ! 0),
          LogToQueryViewsLog (fresh_view ''db.v2'' 2)]"
proof -
  have off: "\<not> parallel_view_processing (getContext (table_writer two_views))" by code_simp
  then have h: "pool_threads (table_writer two_views) \<le> 1" by (rule pool_threads_parallel_off)
  have n: "first_failed (views (fst failed_write)) = 0" by code_simp
  have tr: "trace (fst (snd failed_write))
       = [SinkWrite 0 plain_block, SinkWrite 1 plain_block,
          LogToQueryViewsLog (views (fst failed_write) ! 0),
          LogToQueryViewsLog (fresh_view ''db.v2'' 2)]" by code_simp
  note stops = write_single_thread_stops_at_first_exception[OF h, of boom_env "[]" 0 plain_block
      idle_world, folded failed_write_def]
  from stops have len: "length (views (fst failed_write)) = length (views (table_writer two_views))"
    by (rule conjunct1)
  from stops have "drop (Suc (first_failed (views (fst failed_write)))) (views (fst failed_write))
        = drop (Suc (first_failed (views (fst failed_write)))) (views (table_writer two_views))"
    by (elim conjE)
  with n have rest: "drop 1 (views (fst failed_write)) = drop 1 (views (table_writer two_views))"
    by simp
  have vs: "views (table_writer two_views) = [fresh_view ''db.v1'' 1, fresh_view ''db.v2'' 2]"
    by (simp add: table_writer_def two_views_def)
  show ?thesis using off h n tr len rest unfolding vs by simp
qed

subsection \<open>\<^verbatim>\<open>flush\<close>\<close>

lemma flush_views_calls_in_order:
  "flush_views e vs wd = calls_in_order e (map (\<lambda>view. SinkFlush (out view)) vs) wd"
  by (induction vs arbitrary: wd) (simp_all split: prod.split option.split)

lemma flush_calls_in_order:
  "flush e w wd =
     (w, fst (calls_in_order e (flush_calls w) wd),
      case snd (calls_in_order e (flush_calls w) wd) of None \<Rightarrow> Returned | Some x \<Rightarrow> Thrown x)"
proof (cases "output_sink w")
  case None
  then show ?thesis
    by (simp add: flush_def on_output_def flush_calls_def flush_views_calls_in_order
        split: prod.split option.split)
next
  case (Some s)
  then show ?thesis
    by (simp add: flush_def on_output_def flush_calls_def flush_views_calls_in_order
        split: prod.split option.split)
qed

lemma calls_in_order_made:
  "\<exists>n\<le>length cs.
      trace (fst (calls_in_order e cs wd)) = trace wd @ take n cs
    \<and> (\<forall>i<n. sink_outcome e (trace wd @ take i cs) (cs ! i)
                = (if Suc i = n then snd (calls_in_order e cs wd) else None))
    \<and> (snd (calls_in_order e cs wd) = None \<longrightarrow> n = length cs)
    \<and> (snd (calls_in_order e cs wd) \<noteq> None \<longrightarrow> 0 < n)"
proof (induction cs arbitrary: wd)
  case Nil
  show ?case by simp
next
  case (Cons c cs)
  show ?case
  proof (cases "sink_outcome e (trace wd) c")
    case (Some x)
    then have run: "calls_in_order e (c # cs) wd = (wd\<lparr>trace := trace wd @ [c]\<rparr>, Some x)"
      by (simp add: invoke_def)
    show ?thesis unfolding run
    proof (intro exI[of _ 1] conjI allI impI)
      show "1 \<le> length (c # cs)" by simp
      show "trace (fst (wd\<lparr>trace := trace wd @ [c]\<rparr>, Some x)) = trace wd @ take 1 (c # cs)"
        by simp
      fix i :: nat
      assume "i < 1"
      then have "i = 0" by simp
      then show "sink_outcome e (trace wd @ take i (c # cs)) ((c # cs) ! i)
            = (if Suc i = 1 then snd (wd\<lparr>trace := trace wd @ [c]\<rparr>, Some x) else None)"
        using Some by simp
    next
      assume "snd (wd\<lparr>trace := trace wd @ [c]\<rparr>, Some x) = None"
      then show "1 = length (c # cs)" by simp
    next
      show "0 < (1::nat)" by simp
    qed
  next
    case None
    define wd' where "wd' = wd\<lparr>trace := trace wd @ [c]\<rparr>"
    have run: "calls_in_order e (c # cs) wd = calls_in_order e cs wd'"
      using None by (simp add: invoke_def wd'_def)
    from Cons.IH[of wd'] obtain n where all: "n \<le> length cs \<and>
      trace (fst (calls_in_order e cs wd')) = trace wd' @ take n cs
      \<and> (\<forall>i<n. sink_outcome e (trace wd' @ take i cs) (cs ! i)
                = (if Suc i = n then snd (calls_in_order e cs wd') else None))
      \<and> (snd (calls_in_order e cs wd') = None \<longrightarrow> n = length cs)
      \<and> (snd (calls_in_order e cs wd') \<noteq> None \<longrightarrow> 0 < n)"
      by (elim exE)
    note n = all[THEN conjunct1] all[THEN conjunct2, THEN conjunct1]
      all[THEN conjunct2, THEN conjunct2, THEN conjunct1, rule_format]
      all[THEN conjunct2, THEN conjunct2, THEN conjunct2, THEN conjunct1]
      all[THEN conjunct2, THEN conjunct2, THEN conjunct2, THEN conjunct2]
    have tr: "trace wd' = trace wd @ [c]" by (simp add: wd'_def)
    have out: "sink_outcome e (trace wd @ take i (c # cs)) ((c # cs) ! i)
                = (if Suc i = Suc n then snd (calls_in_order e cs wd') else None)"
      if "i < Suc n" for i
    proof (cases i)
      case 0
      then show ?thesis using None n(5) by auto
    next
      case (Suc i')
      with that have "i' < n" by simp
      from n(3)[OF this] show ?thesis using Suc tr by simp
    qed
    show ?thesis unfolding run
    proof (intro exI[of _ "Suc n"] conjI allI impI)
      show "Suc n \<le> length (c # cs)" using n(1) by simp
      show "trace (fst (calls_in_order e cs wd')) = trace wd @ take (Suc n) (c # cs)"
        using n(2) tr by simp
      fix i
      assume "i < Suc n"
      then show "sink_outcome e (trace wd @ take i (c # cs)) ((c # cs) ! i)
                = (if Suc i = Suc n then snd (calls_in_order e cs wd') else None)"
        by (rule out)
    next
      assume "snd (calls_in_order e cs wd') = None"
      with n(4) show "Suc n = length (c # cs)" by simp
    next
      show "0 < Suc n" by simp
    qed
  qed
qed

text \<open>C4, as amended. \<^verbatim>\<open>flush\<close> makes the calls of \<open>flush_calls\<close> (the direct sink if any, then
  the sink of each view) in order, and stops at the first one that throws: the calls made
  are a prefix of that list, every call made but the last one succeeded, \<^verbatim>\<open>flush\<close> returns
  when all the calls were made and succeeded, and throws the exception of the last call
  made otherwise. The calls after a failing one are not attempted.\<close>

theorem flush_stops_at_first_error:
  "\<exists>n\<le>length (flush_calls w).
      fst (flush e w wd) = w
    \<and> trace (fst (snd (flush e w wd))) = trace wd @ take n (flush_calls w)
    \<and> (\<forall>i. Suc i < n \<longrightarrow>
           sink_outcome e (trace wd @ take i (flush_calls w)) (flush_calls w ! i) = None)
    \<and> (case snd (snd (flush e w wd)) of
          Returned \<Rightarrow> n = length (flush_calls w)
            \<and> (\<forall>i<n. sink_outcome e (trace wd @ take i (flush_calls w)) (flush_calls w ! i) = None)
        | Thrown x \<Rightarrow> 0 < n
            \<and> sink_outcome e (trace wd @ take (n - 1) (flush_calls w)) (flush_calls w ! (n - 1)) = Some x
        | Terminated \<Rightarrow> False)"
proof -
  from calls_in_order_made[of "flush_calls w" e wd] obtain n where all: "n \<le> length (flush_calls w) \<and>
      trace (fst (calls_in_order e (flush_calls w) wd)) = trace wd @ take n (flush_calls w)
      \<and> (\<forall>i<n. sink_outcome e (trace wd @ take i (flush_calls w)) (flush_calls w ! i)
                = (if Suc i = n then snd (calls_in_order e (flush_calls w) wd) else None))
      \<and> (snd (calls_in_order e (flush_calls w) wd) = None \<longrightarrow> n = length (flush_calls w))
      \<and> (snd (calls_in_order e (flush_calls w) wd) \<noteq> None \<longrightarrow> 0 < n)"
    by (elim exE)
  note n = all[THEN conjunct1] all[THEN conjunct2, THEN conjunct1]
      all[THEN conjunct2, THEN conjunct2, THEN conjunct1, rule_format]
      all[THEN conjunct2, THEN conjunct2, THEN conjunct2, THEN conjunct1]
      all[THEN conjunct2, THEN conjunct2, THEN conjunct2, THEN conjunct2]
  have early: "sink_outcome e (trace wd @ take i (flush_calls w)) (flush_calls w ! i) = None"
    if "Suc i < n" for i
    using n(3)[of i] that by simp
  show ?thesis
  proof (cases "snd (calls_in_order e (flush_calls w) wd)")
    case None
    then have all: "sink_outcome e (trace wd @ take i (flush_calls w)) (flush_calls w ! i) = None"
      if "i < n" for i
      using n(3)[of i] that by simp
    show ?thesis
      using None n(1,2,4) all
      by (intro exI[of _ n]) (simp add: flush_calls_in_order)
  next
    case (Some x)
    with n(5) have pos: "0 < n" by simp
    then have "sink_outcome e (trace wd @ take (n - 1) (flush_calls w)) (flush_calls w ! (n - 1)) = Some x"
      using n(3)[of "n - 1"] Some by simp
    then show ?thesis
      using Some n(1,2) pos early
      by (intro exI[of _ n]) (simp add: flush_calls_in_order)
  qed
qed

text \<open>C4 as stated fails: with two views, when the flush of the first view throws, the flush
  of the second view is not attempted.\<close>

theorem flush_is_not_best_effort:
  "trace (fst (snd failed_flush)) = [SinkFlush 0, SinkFlush 1]
   \<and> SinkFlush 2 \<notin> set (trace (fst (snd failed_flush)))
   \<and> snd (snd failed_flush) = Thrown (Exception ''boom'')"
  by code_simp

theorem flush_stops_at_first_error_witness:
  "flush_calls (table_writer two_views) = [SinkFlush 0, SinkFlush 1, SinkFlush 2]
   \<and> (\<exists>n\<le>length (flush_calls (table_writer two_views)).
      fst failed_flush = table_writer two_views
    \<and> trace (fst (snd failed_flush)) = trace idle_world @ take n (flush_calls (table_writer two_views))
    \<and> (\<forall>i. Suc i < n \<longrightarrow>
           sink_outcome flush_boom_env (trace idle_world @ take i (flush_calls (table_writer two_views)))
             (flush_calls (table_writer two_views) ! i) = None)
    \<and> (case snd (snd failed_flush) of
          Returned \<Rightarrow> n = length (flush_calls (table_writer two_views))
            \<and> (\<forall>i<n. sink_outcome flush_boom_env
                          (trace idle_world @ take i (flush_calls (table_writer two_views)))
                          (flush_calls (table_writer two_views) ! i) = None)
        | Thrown x \<Rightarrow> 0 < n
            \<and> sink_outcome flush_boom_env
                  (trace idle_world @ take (n - 1) (flush_calls (table_writer two_views)))
                  (flush_calls (table_writer two_views) ! (n - 1)) = Some x
        | Terminated \<Rightarrow> False))"
proof -
  have calls: "flush_calls (table_writer two_views) = [SinkFlush 0, SinkFlush 1, SinkFlush 2]"
    by code_simp
  show ?thesis
    using calls flush_stops_at_first_error[of "table_writer two_views" flush_boom_env idle_world,
        folded failed_flush_def]
    by blast
qed

subsection \<open>\<^verbatim>\<open>writePrefix\<close>\<close>

lemma prefix_loop_trace:
  "trace (fst (snd (sequential_loop (process_prefix e t) vs wd))) =
     trace wd @ map (\<lambda>v. SinkWritePrefix (out v))
                  (take (Suc (first_failed (fst (sequential_loop (process_prefix e t) vs wd)))) vs)"
  unfolding first_failed_def
  by (rule sequential_loop_trace) (rule process_prefix_trace)

lemma first_failed_less:
  "first_failed vs < length vs \<longleftrightarrow> (\<exists>v\<in>set vs. exception v \<noteq> None)"
  by (induction vs) (auto simp: first_failed_def)

lemma rethrow_handled_not_Returned: "rethrow_handled handled \<noteq> Returned"
  by (cases handled) (simp_all add: rethrow_handled_def)

text \<open>C5, as amended. After the prefix of the direct sink, \<^verbatim>\<open>writePrefix\<close> runs the prefix stage
  of the views in order, up to and including the first view that holds an exception after
  its stage (position \<open>n\<close>): the calls made are the prefixes of the first \<open>n + 1\<close> views,
  and the views after \<open>n\<close> are unchanged. When no view holds an exception the method
  returns. Otherwise \<^verbatim>\<open>log_query_views\<close> runs on the full list of views, right after the
  failing stage, and the method does not return.\<close>

theorem writePrefix_stops_at_first_failed_view:
  assumes ok: "snd (on_output e SinkWritePrefix w wd) = None"
  shows "length (views (fst (writePrefix e handled t w wd))) = length (views w)
    \<and> drop (Suc (first_failed (views (fst (writePrefix e handled t w wd)))))
           (views (fst (writePrefix e handled t w wd)))
        = drop (Suc (first_failed (views (fst (writePrefix e handled t w wd))))) (views w)
    \<and> (if first_failed (views (fst (writePrefix e handled t w wd))) < length (views w)
        then snd (snd (writePrefix e handled t w wd)) \<noteq> Returned
           \<and> (\<exists>wd2. trace wd2
                       = trace (fst (on_output e SinkWritePrefix w wd))
                         @ map (\<lambda>v. SinkWritePrefix (out v))
                             (take (Suc (first_failed (views (fst (writePrefix e handled t w wd)))))
                                (views w))
                    \<and> fst (snd (writePrefix e handled t w wd))
                       = log_query_views (fst (writePrefix e handled t w wd)) wd2)
        else snd (snd (writePrefix e handled t w wd)) = Returned
           \<and> trace (fst (snd (writePrefix e handled t w wd)))
               = trace (fst (on_output e SinkWritePrefix w wd))
                 @ map (\<lambda>v. SinkWritePrefix (out v))
                     (take (Suc (first_failed (views (fst (writePrefix e handled t w wd)))))
                        (views w)))"
proof -
  define wd1 where "wd1 = fst (on_output e SinkWritePrefix w wd)"
  define L where "L = sequential_loop (process_prefix e t) (views w) wd1"
  define n where "n = first_failed (fst L)"
  have res: "writePrefix e handled t w wd =
      (if snd (snd L) then (w\<lparr>views := fst L\<rparr>, log_query_views (w\<lparr>views := fst L\<rparr>) (fst (snd L)),
                            rethrow_handled handled)
       else (w\<lparr>views := fst L\<rparr>, fst (snd L), Returned))"
    using ok by (simp add: writePrefix_def case_prod_beta Let_def L_def wd1_def)
  have vs: "views (fst (writePrefix e handled t w wd)) = fst L"
    unfolding res by simp
  have len: "length (fst L) = length (views w)"
    unfolding L_def by (rule sequential_loop_length)
  have rest: "drop (Suc n) (fst L) = drop (Suc n) (views w)"
    unfolding n_def L_def by (rule first_failed_rest_untouched)
  have tr: "trace (fst (snd L)) = trace wd1 @ map (\<lambda>v. SinkWritePrefix (out v)) (take (Suc n) (views w))"
    unfolding n_def L_def by (rule prefix_loop_trace)
  have failed: "snd (snd L) \<longleftrightarrow> n < length (views w)"
    unfolding n_def using first_failed_less[of "fst L"] len
      sequential_loop_happened[of "process_prefix e t" "views w" wd1]
    by (simp add: L_def)
  show ?thesis
  proof (cases "snd (snd L)")
    case True
    then have r: "writePrefix e handled t w wd =
        (w\<lparr>views := fst L\<rparr>, log_query_views (w\<lparr>views := fst L\<rparr>) (fst (snd L)), rethrow_handled handled)"
      unfolding res by simp
    have "\<exists>wd2. trace wd2 = trace wd1 @ map (\<lambda>v. SinkWritePrefix (out v)) (take (Suc n) (views w))
             \<and> log_query_views (w\<lparr>views := fst L\<rparr>) (fst (snd L)) = log_query_views (w\<lparr>views := fst L\<rparr>) wd2"
      using tr by blast
    then show ?thesis
      unfolding vs unfolding r n_def[symmetric] wd1_def[symmetric]
      using True failed len rest rethrow_handled_not_Returned[of handled] by simp
  next
    case False
    then have r: "writePrefix e handled t w wd = (w\<lparr>views := fst L\<rparr>, fst (snd L), Returned)"
      unfolding res by simp
    show ?thesis
      unfolding vs unfolding r n_def[symmetric] wd1_def[symmetric]
      using False failed len rest tr by simp
  qed
qed

theorem writePrefix_stops_at_first_failed_view_witness:
  "snd (on_output prefix_boom_env SinkWritePrefix (table_writer two_views) idle_world) = None
   \<and> first_failed (views (fst failed_prefix)) = 0
   \<and> length (views (fst failed_prefix)) = 2
   \<and> drop 1 (views (fst failed_prefix)) = [fresh_view ''db.v2'' 2]
   \<and> snd (snd failed_prefix) \<noteq> Returned
   \<and> (\<exists>wd2. trace wd2 = [SinkWritePrefix 0, SinkWritePrefix 1]
          \<and> fst (snd failed_prefix) = log_query_views (fst failed_prefix) wd2)"
proof -
  have ok: "snd (on_output prefix_boom_env SinkWritePrefix (table_writer two_views) idle_world) = None"
    by code_simp
  have n: "first_failed (views (fst failed_prefix)) = 0" by code_simp
  have tr: "trace (fst (on_output prefix_boom_env SinkWritePrefix (table_writer two_views) idle_world))
              = [SinkWritePrefix 0]" by code_simp
  have vs: "views (table_writer two_views) = [fresh_view ''db.v1'' 1, fresh_view ''db.v2'' 2]"
    by (simp add: table_writer_def two_views_def)
  note stops = writePrefix_stops_at_first_failed_view[OF ok, of None 0, folded failed_prefix_def]
  show ?thesis
    using ok stops unfolding n tr vs by (simp add: fresh_view_def)
qed

text \<open>C5 as stated fails: when the prefix of the first of two views throws, the prefix of
  the second is never run, and what leaves \<^verbatim>\<open>writePrefix\<close> is not the captured exception
  (here no exception is being handled by the caller, and \<^verbatim>\<open>throw;\<close> ends the program).\<close>

theorem writePrefix_leaves_at_first_failed_view:
  "exception (views (fst failed_prefix) ! 0)
     = Some (Exception ''boom: while writing prefix to view db.v1'')
   \<and> SinkWritePrefix 2 \<notin> set (trace (fst (snd failed_prefix)))
   \<and> status (runtime_stats (views (fst failed_prefix) ! 1)) = INIT
   \<and> snd (snd failed_prefix) = Terminated
   \<and> snd (snd failed_prefix)
       \<noteq> Thrown (Exception ''boom: while writing prefix to view db.v1'')"
  by code_simp

subsection \<open>\<^verbatim>\<open>write\<close> on a live view, and the duplicate gate\<close>

text \<open>C2, as amended. When the base storage is a live view and the block passes the
  validation, \<^verbatim>\<open>write\<close> hands the block to \<^verbatim>\<open>writeIntoLiveView\<close>, in place of the write to
  the direct sink. It returns right after that call only when the call throws (the
  exception leaves \<^verbatim>\<open>write\<close>), when the list of views is empty, or when the duplicate gate
  applies. Otherwise the list of views is consulted and the per-view stage runs as for
  any other storage.\<close>

theorem write_to_live_view_goes_on_to_views:
  assumes live: "storage_is_live_view w"
    and valid: "validateArraySizes blk = None"
  shows "write_to_storage e blk w wd = invoke e (WriteIntoLiveView blk) wd
    \<and> write_block e sched t blk w wd =
        (let wd1 = wd\<lparr>trace := trace wd @ [WriteIntoLiveView blk]\<rparr>
         in case sink_outcome e (trace wd) (WriteIntoLiveView blk) of
              Some x \<Rightarrow> (w, wd1, Thrown x)
            | None \<Rightarrow>
                if views w = []
                   \<or> (\<not> deduplicate_blocks_in_dependent_materialized_views (getContext w)
                       \<and> replicated_output w \<and> lastBlockIsDuplicate e (trace wd1))
                then (w, wd1, Returned)
                else fan_out sched t (\<lambda>t'. process e t' blk) w wd1)"
  using live valid
  by (auto simp add: write_block_def write_to_storage_def invoke_def Let_def split: option.split)

theorem write_to_live_view_goes_on_to_views_witness:
  "storage_is_live_view (live_view_writer two_views)
   \<and> validateArraySizes plain_block = None
   \<and> write_to_storage quiet_env plain_block (live_view_writer two_views) idle_world
       = invoke quiet_env (WriteIntoLiveView plain_block) idle_world
   \<and> live_write
       = fan_out [] 0 (\<lambda>t'. process quiet_env t' plain_block) (live_view_writer two_views)
           (idle_world\<lparr>trace := [WriteIntoLiveView plain_block]\<rparr>)"
proof -
  have live: "storage_is_live_view (live_view_writer two_views)" by code_simp
  have valid: "validateArraySizes plain_block = None" by code_simp
  have vs: "views (live_view_writer two_views) \<noteq> []" by code_simp
  have gate: "\<not> replicated_output (live_view_writer two_views)" by code_simp
  have ok: "sink_outcome quiet_env [] (WriteIntoLiveView plain_block) = None"
    by (simp add: quiet_env_def)
  have tr: "trace idle_world = []" by (simp add: idle_world_def)
  note goes = write_to_live_view_goes_on_to_views[OF live valid, of quiet_env idle_world "[]" 0,
        folded live_write_def]
  from goes have storage: "write_to_storage quiet_env plain_block (live_view_writer two_views) idle_world
       = invoke quiet_env (WriteIntoLiveView plain_block) idle_world"
    by (rule conjunct1)
  from goes[THEN conjunct2] have "live_write
       = fan_out [] 0 (\<lambda>t'. process quiet_env t' plain_block) (live_view_writer two_views)
           (idle_world\<lparr>trace := [WriteIntoLiveView plain_block]\<rparr>)"
    unfolding tr Let_def unfolding ok using vs gate by simp
  with live valid storage show ?thesis by simp
qed

text \<open>C2 as stated fails: a writer on a live view with two dependents runs the block stage
  of both after the call to the live view.\<close>

theorem write_to_live_view_runs_the_views:
  "storage_is_live_view (live_view_writer two_views)
   \<and> trace (fst (snd live_write))
       = [WriteIntoLiveView plain_block, SinkWrite 1 plain_block, SinkWrite 2 plain_block]
   \<and> map (\<lambda>v. status (runtime_stats v)) (views (fst live_write)) = [WRITTEN_BLOCK, WRITTEN_BLOCK]
   \<and> snd (snd live_write) = Returned"
  by code_simp

text \<open>C6. When the direct sink is a replicated one that reports, after the write to the
  storage, that the last block was a duplicate, and the setting
  \<^verbatim>\<open>deduplicate_blocks_in_dependent_materialized_views\<close> is off, \<^verbatim>\<open>write\<close> runs the block
  stage of no view: the writer with its view records is unchanged and the only call made
  is the write to the storage (none at all when the block is rejected by the validation).
  The method returns, unless the validation or the write to the storage threw.\<close>

theorem duplicate_block_is_not_pushed_to_views:
  assumes off: "\<not> deduplicate_blocks_in_dependent_materialized_views (getContext w)"
    and replicated: "replicated_output w"
    and duplicate: "lastBlockIsDuplicate e (trace (fst (write_to_storage e blk w wd)))"
  shows "fst (write_block e sched t blk w wd) = w
    \<and> trace (fst (snd (write_block e sched t blk w wd)))
        = trace wd @ (if validateArraySizes blk \<noteq> None then []
                      else if storage_is_live_view w then [WriteIntoLiveView blk]
                      else case output_sink w of Some s \<Rightarrow> [SinkWrite s blk] | None \<Rightarrow> [])
    \<and> snd (snd (write_block e sched t blk w wd))
        = (case validateArraySizes blk of
             Some x \<Rightarrow> Thrown x
           | None \<Rightarrow> (case snd (write_to_storage e blk w wd) of
                         Some x \<Rightarrow> Thrown x
                       | None \<Rightarrow> Returned))"
proof (cases "validateArraySizes blk")
  case (Some x)
  then show ?thesis by (simp add: write_block_def)
next
  case None
  have tr: "trace (fst (write_to_storage e blk w wd))
        = trace wd @ (if storage_is_live_view w then [WriteIntoLiveView blk]
                      else case output_sink w of Some s \<Rightarrow> [SinkWrite s blk] | None \<Rightarrow> [])"
    by (simp add: write_to_storage_def on_output_def invoke_def split: option.split)
  show ?thesis
  proof (cases "snd (write_to_storage e blk w wd)")
    case (Some x)
    then have "write_block e sched t blk w wd = (w, fst (write_to_storage e blk w wd), Thrown x)"
      using None by (simp add: write_block_def case_prod_beta Let_def)
    then show ?thesis using None Some tr by simp
  next
    case stored: None
    then have "write_block e sched t blk w wd = (w, fst (write_to_storage e blk w wd), Returned)"
      using None off replicated duplicate by (simp add: write_block_def case_prod_beta Let_def)
    then show ?thesis using None stored tr by simp
  qed
qed

theorem duplicate_block_is_not_pushed_to_views_witness:
  "\<not> deduplicate_blocks_in_dependent_materialized_views (getContext (replicated_writer two_views))
   \<and> replicated_output (replicated_writer two_views)
   \<and> lastBlockIsDuplicate duplicate_env
        (trace (fst (write_to_storage duplicate_env plain_block (replicated_writer two_views) idle_world)))
   \<and> fst duplicate_write = replicated_writer two_views
   \<and> snd (snd duplicate_write) = Returned
   \<and> trace (fst (snd duplicate_write)) = [SinkWrite 0 plain_block]"
proof -
  have valid: "validateArraySizes plain_block = None" by code_simp
  have stored: "snd (write_to_storage duplicate_env plain_block (replicated_writer two_views) idle_world) = None"
    by code_simp
  have off: "\<not> deduplicate_blocks_in_dependent_materialized_views (getContext (replicated_writer two_views))"
    by code_simp
  have replicated: "replicated_output (replicated_writer two_views)" by code_simp
  have duplicate: "lastBlockIsDuplicate duplicate_env
        (trace (fst (write_to_storage duplicate_env plain_block (replicated_writer two_views) idle_world)))"
    by code_simp
  have sink: "output_sink (replicated_writer two_views) = Some 0"
    "\<not> storage_is_live_view (replicated_writer two_views)"
    by (simp_all add: replicated_writer_def table_writer_def)
  have tr: "trace idle_world = []" by (simp add: idle_world_def)
  note gated = duplicate_block_is_not_pushed_to_views[OF off replicated duplicate,
      of "[]" 0, folded duplicate_write_def]
  from gated[THEN conjunct1] have same: "fst duplicate_write = replicated_writer two_views" .
  from gated[THEN conjunct2, THEN conjunct1]
  have calls: "trace (fst (snd duplicate_write)) = [SinkWrite 0 plain_block]"
    using valid sink tr by simp
  from gated[THEN conjunct2, THEN conjunct2]
  have returned: "snd (snd duplicate_write) = Returned"
    using valid stored by simp
  from off replicated duplicate same returned calls show ?thesis by simp
qed

subsection \<open>The contexts made by the constructor\<close>

text \<open>C9, as amended. The constructor makes the select context and the insert context, both
  copies of the context of the caller, if and only if the table has a dependent. In the
  insert context \<^verbatim>\<open>insert_deduplicate\<close> is set to false exactly when the writer pushes to
  the table itself (it is not built with \<^verbatim>\<open>no_destination\<close>), the storage supports
  deduplication and \<^verbatim>\<open>deduplicate_blocks_in_dependent_materialized_views\<close> is off;
  otherwise it is as the caller has it. A minimum block size for materialized views that
  is not zero becomes the ordinary minimum block size, rows and bytes each.\<close>

theorem constructor_contexts_for_dependents:
  "(fst (constructor_contexts ctx no_destination supportsDeduplication dependencies) \<noteq> None
      \<longleftrightarrow> dependencies \<noteq> [])
   \<and> (snd (constructor_contexts ctx no_destination supportsDeduplication dependencies) \<noteq> None
      \<longleftrightarrow> dependencies \<noteq> [])
   \<and> (dependencies \<noteq> [] \<longrightarrow>
        fst (constructor_contexts ctx no_destination supportsDeduplication dependencies) = Some ctx
      \<and> snd (constructor_contexts ctx no_destination supportsDeduplication dependencies)
          = Some (ctx\<lparr>insert_deduplicate :=
                        (if \<not> no_destination \<and> supportsDeduplication
                            \<and> \<not> deduplicate_blocks_in_dependent_materialized_views ctx
                         then False else insert_deduplicate ctx),
                      min_insert_block_size_rows :=
                        (if min_insert_block_size_rows_for_materialized_views ctx \<noteq> 0
                         then min_insert_block_size_rows_for_materialized_views ctx
                         else min_insert_block_size_rows ctx),
                      min_insert_block_size_bytes :=
                        (if min_insert_block_size_bytes_for_materialized_views ctx \<noteq> 0
                         then min_insert_block_size_bytes_for_materialized_views ctx
                         else min_insert_block_size_bytes ctx)\<rparr>))"
  by (simp add: constructor_contexts_def Let_def)

theorem constructor_contexts_for_dependents_witness:
  "[''db.v1''] \<noteq> ([] :: string list)
   \<and> fst (constructor_contexts default_settings False True [''db.v1'']) = Some default_settings
   \<and> map_option insert_deduplicate (snd (constructor_contexts default_settings False True [''db.v1'']))
       = Some False
   \<and> constructor_contexts default_settings False True [] = (None, None)"
proof -
  have none: "constructor_contexts default_settings False True [] = (None, None)"
    by (simp add: constructor_contexts_def)
  have off: "\<not> deduplicate_blocks_in_dependent_materialized_views default_settings"
    by (simp add: default_settings_def)
  show ?thesis
    using none off constructor_contexts_for_dependents[of default_settings False True "[''db.v1'']"]
    by simp
qed

text \<open>C9 as stated fails: built with \<^verbatim>\<open>no_destination\<close> on a storage that supports
  deduplication, with the setting off, the insert context keeps \<^verbatim>\<open>insert_deduplicate\<close>.\<close>

theorem constructor_keeps_deduplication_without_destination:
  "\<not> deduplicate_blocks_in_dependent_materialized_views default_settings
   \<and> insert_deduplicate default_settings
   \<and> map_option insert_deduplicate (snd (constructor_contexts default_settings True True [''db.v1'']))
       = Some True"
  by (simp add: constructor_contexts_def default_settings_def Let_def)

subsection \<open>Views that hold an exception\<close>

lemma suffix_loop_trace:
  "trace (fst (snd (sequential_loop (process_suffix e t) vs wd))) =
     trace wd @ map (\<lambda>v. SinkWriteSuffix (out v))
                  (take (Suc (first_failed (fst (sequential_loop (process_suffix e t) vs wd)))) vs)"
  unfolding first_failed_def
  by (rule sequential_loop_trace) (rule process_suffix_trace)

lemma fan_out_captured:
  assumes bound: "pool_threads w \<le> 1 \<or> length (views w) < 256"
    and captured: "\<exists>v\<in>set (fst (run_views sched t stage w wd)). exception v \<noteq> None"
  shows "\<exists>x. fan_out sched t stage w wd =
               (w\<lparr>views := fst (run_views sched t stage w wd)\<rparr>,
                log_query_views (w\<lparr>views := fst (run_views sched t stage w wd)\<rparr>)
                  (fst (snd (run_views sched t stage w wd))),
                Thrown x)"
proof -
  have happened: "snd (snd (run_views sched t stage w wd))"
    using bound captured by (rule run_views_happened)
  from captured obtain view x where first:
    "find (\<lambda>v. exception v \<noteq> None) (fst (run_views sched t stage w wd)) = Some view"
    "exception view = Some x"
    by (rule find_first_exception)
  have "fan_out sched t stage w wd =
               (w\<lparr>views := fst (run_views sched t stage w wd)\<rparr>,
                log_query_views (w\<lparr>views := fst (run_views sched t stage w wd)\<rparr>)
                  (fst (snd (run_views sched t stage w wd))),
                Thrown x)"
    using happened first
    by (simp add: fan_out_def case_prod_beta Let_def check_exceptions_in_views_def
        check_exceptions_loop_find)
  then show ?thesis by blast
qed

lemma fan_out_quiet:
  assumes "\<not> snd (snd (run_views sched t stage w wd))"
  shows "fan_out sched t stage w wd =
               (w\<lparr>views := fst (run_views sched t stage w wd)\<rparr>,
                fst (snd (run_views sched t stage w wd)), Returned)"
  using assms by (simp add: fan_out_def case_prod_beta Let_def)

lemma writeSuffix_single_thread:
  assumes single: "pool_threads w \<le> 1"
    and ok: "snd (on_output e SinkWriteSuffix w wd) = None"
    and some: "views w \<noteq> []"
  shows "fst (writeSuffix e sched t w wd)
           = w\<lparr>views := fst (sequential_loop (process_suffix e t) (views w)
                                (fst (on_output e SinkWriteSuffix w wd)))\<rparr>"
    and "fst (snd (writeSuffix e sched t w wd))
           = log_query_views (fst (writeSuffix e sched t w wd))
               (fst (snd (sequential_loop (process_suffix e t) (views w)
                                (fst (on_output e SinkWriteSuffix w wd)))))"
proof -
  define wd1 where "wd1 = fst (on_output e SinkWriteSuffix w wd)"
  have seq: "run_views sched t (process_suffix e) w wd1
               = sequential_loop (process_suffix e t) (views w) wd1"
    using single by (simp add: run_views_def)
  have res: "writeSuffix e sched t w wd =
      (case fan_out sched t (process_suffix e) w wd1 of
         (w', wd2, Returned) \<Rightarrow> (w', log_query_views w' wd2, Returned)
       | (w', wd2, r) \<Rightarrow> (w', wd2, r))"
    using ok some by (simp add: writeSuffix_def case_prod_beta Let_def wd1_def)
  have both: "fst (writeSuffix e sched t w wd)
           = w\<lparr>views := fst (sequential_loop (process_suffix e t) (views w) wd1)\<rparr>
     \<and> fst (snd (writeSuffix e sched t w wd))
           = log_query_views (w\<lparr>views := fst (sequential_loop (process_suffix e t) (views w) wd1)\<rparr>)
               (fst (snd (sequential_loop (process_suffix e t) (views w) wd1)))"
  proof (cases "snd (snd (run_views sched t (process_suffix e) w wd1))")
    case False
    from fan_out_quiet[OF this] show ?thesis unfolding res seq by simp
  next
    case True
    then have "\<exists>v\<in>set (fst (run_views sched t (process_suffix e) w wd1)). exception v \<noteq> None"
      unfolding seq using sequential_loop_happened[of "process_suffix e t" "views w" wd1] by simp
    with single obtain x where "fan_out sched t (process_suffix e) w wd1 =
               (w\<lparr>views := fst (run_views sched t (process_suffix e) w wd1)\<rparr>,
                log_query_views (w\<lparr>views := fst (run_views sched t (process_suffix e) w wd1)\<rparr>)
                  (fst (snd (run_views sched t (process_suffix e) w wd1))),
                Thrown x)"
      using fan_out_captured[of w sched t "process_suffix e" wd1] by blast
    then show ?thesis unfolding res seq by simp
  qed
  from both show "fst (writeSuffix e sched t w wd)
           = w\<lparr>views := fst (sequential_loop (process_suffix e t) (views w)
                                (fst (on_output e SinkWriteSuffix w wd)))\<rparr>"
    unfolding wd1_def by (rule conjunct1)
  from both show "fst (snd (writeSuffix e sched t w wd))
           = log_query_views (fst (writeSuffix e sched t w wd))
               (fst (snd (sequential_loop (process_suffix e t) (views w)
                                (fst (on_output e SinkWriteSuffix w wd)))))"
    unfolding wd1_def by simp
qed

lemma writeSuffix_views:
  "views (fst (writeSuffix e sched t w wd)) = views w
   \<or> views (fst (writeSuffix e sched t w wd))
        = fst (run_views sched t (process_suffix e) w (fst (on_output e SinkWriteSuffix w wd)))"
proof (cases "snd (on_output e SinkWriteSuffix w wd) = None \<and> views w \<noteq> []")
  case False
  then have "fst (writeSuffix e sched t w wd) = w"
    by (auto simp add: writeSuffix_def case_prod_beta Let_def split: option.split)
  then show ?thesis by simp
next
  case True
  then have "fst (writeSuffix e sched t w wd)
       = fst (fan_out sched t (process_suffix e) w (fst (on_output e SinkWriteSuffix w wd)))"
    by (simp add: writeSuffix_def case_prod_beta Let_def split: result.split)
  then show ?thesis by (simp add: fan_out_views)
qed

lemma writePrefix_views:
  "views (fst (writePrefix e handled t w wd)) = views w
   \<or> views (fst (writePrefix e handled t w wd))
        = fst (sequential_loop (process_prefix e t) (views w) (fst (on_output e SinkWritePrefix w wd)))"
  by (simp add: writePrefix_def case_prod_beta Let_def split: option.split)

lemma captured_exception_stays:
  assumes "k < length (views w)" "exception (views w ! k) \<noteq> None"
  shows "exception (views (fst (writePrefix e handled t w wd)) ! k) \<noteq> None"
    and "exception (views (fst (write_block e sched t blk w wd)) ! k) \<noteq> None"
    and "exception (views (fst (writeSuffix e sched t w wd)) ! k) \<noteq> None"
proof -
  show "exception (views (fst (writePrefix e handled t w wd)) ! k) \<noteq> None"
    using writePrefix_views[of e handled t w wd]
  proof
    assume "views (fst (writePrefix e handled t w wd)) = views w"
    with assms show ?thesis by simp
  next
    assume v: "views (fst (writePrefix e handled t w wd))
        = fst (sequential_loop (process_prefix e t) (views w) (fst (on_output e SinkWritePrefix w wd)))"
    show ?thesis unfolding v
      using assms by (intro sequential_loop_keeps_exception process_prefix_keeps_exception)
  qed
  show "exception (views (fst (write_block e sched t blk w wd)) ! k) \<noteq> None"
    using write_block_views[of e sched t blk w wd]
  proof
    assume "views (fst (write_block e sched t blk w wd)) = views w"
    with assms show ?thesis by simp
  next
    assume v: "views (fst (write_block e sched t blk w wd))
        = fst (run_views sched t (\<lambda>t'. process e t' blk) w (fst (write_to_storage e blk w wd)))"
    show ?thesis unfolding v
      using assms by (intro run_views_keeps_exception process_keeps_exception)
  qed
  show "exception (views (fst (writeSuffix e sched t w wd)) ! k) \<noteq> None"
    using writeSuffix_views[of e sched t w wd]
  proof
    assume "views (fst (writeSuffix e sched t w wd)) = views w"
    with assms show ?thesis by simp
  next
    assume v: "views (fst (writeSuffix e sched t w wd))
        = fst (run_views sched t (process_suffix e) w (fst (on_output e SinkWriteSuffix w wd)))"
    show ?thesis unfolding v
      using assms by (intro run_views_keeps_exception process_suffix_keeps_exception)
  qed
qed

lemma push_blocks_trace_extends:
  "\<exists>rest. trace (fst (push_blocks e s bs wd)) = trace wd @ rest"
proof (induction bs arbitrary: wd)
  case Nil
  show ?case by simp
next
  case (Cons b bs)
  show ?case
  proof (cases "block_bool b \<and> validateArraySizes b = None
                \<and> sink_outcome e (trace wd) (SinkWrite s b) = None")
    case True
    define wd' where "wd' = wd\<lparr>trace := trace wd @ [SinkWrite s b]\<rparr>"
    have run: "push_blocks e s (b # bs) wd = push_blocks e s bs wd'"
      using True by (simp add: invoke_def wd'_def)
    from Cons.IH[of wd'] obtain rest where
      "trace (fst (push_blocks e s bs wd')) = trace wd' @ rest" by (elim exE)
    then have "trace (fst (push_blocks e s (b # bs) wd)) = trace wd @ (SinkWrite s b # rest)"
      unfolding run by (simp add: wd'_def)
    then show ?thesis by (rule exI)
  next
    case False
    then have "trace (fst (push_blocks e s (b # bs) wd)) = trace wd @ []
               \<or> trace (fst (push_blocks e s (b # bs) wd)) = trace wd @ [SinkWrite s b]"
      by (auto simp add: invoke_def split: option.split)
    then show ?thesis by blast
  qed
qed

lemma process_body_ignores_exception:
  "process_body e blk (view\<lparr>exception := x\<rparr>) = process_body e blk view"
  by (rule ext) (simp add: process_body_def Let_def split: option.split)

lemma run_stage_world_ignores_exception:
  "snd (run_stage e t body done text (view\<lparr>exception := x\<rparr>) wd)
     = snd (run_stage e t body done text view wd)"
  by (simp add: run_stage_def Let_def case_prod_beta)

lemma run_stage_stats_ignore_exception:
  "runtime_stats (fst (run_stage e t body done text (view\<lparr>exception := x\<rparr>) wd))
     = runtime_stats (fst (run_stage e t body done text view wd))"
  by (simp add: run_stage_def Let_def case_prod_beta split: option.split)

lemma process_ignores_exception:
  "snd (process e t blk (view\<lparr>exception := x\<rparr>) wd) = snd (process e t blk view wd)"
  "runtime_stats (fst (process e t blk (view\<lparr>exception := x\<rparr>) wd))
     = runtime_stats (fst (process e t blk view wd))"
  by (simp_all add: process_def process_body_ignores_exception
      run_stage_world_ignores_exception run_stage_stats_ignore_exception)

lemma process_prefix_ignores_exception:
  "snd (process_prefix e t (view\<lparr>exception := x\<rparr>) wd) = snd (process_prefix e t view wd)"
  "runtime_stats (fst (process_prefix e t (view\<lparr>exception := x\<rparr>) wd))
     = runtime_stats (fst (process_prefix e t view wd))"
  by (simp_all add: process_prefix_def
      run_stage_world_ignores_exception run_stage_stats_ignore_exception)

lemma process_suffix_ignores_exception:
  "snd (process_suffix e t (view\<lparr>exception := x\<rparr>) wd) = snd (process_suffix e t view wd)"
  "runtime_stats (fst (process_suffix e t (view\<lparr>exception := x\<rparr>) wd))
     = runtime_stats (fst (process_suffix e t view wd))"
  by (simp_all add: process_suffix_def
      run_stage_world_ignores_exception run_stage_stats_ignore_exception)

lemma process_trace_query:
  assumes "query view = Some q"
  shows "\<exists>rest. trace (snd (process e t blk view wd)) = trace wd @ SelectExecute q blk # rest"
proof -
  define wd1 where "wd1 = wd\<lparr>current_thread :=
      (current_thread wd)(t := Some (thread_status (runtime_stats view)))\<rparr>"
  define wd2 where "wd2 = wd1\<lparr>trace := trace wd1 @ [SelectExecute q blk]\<rparr>"
  have tr: "trace (snd (process e t blk view wd)) = trace (fst (process_body e blk view wd1))"
    by (simp add: process_def run_stage_trace wd1_def)
  have body: "fst (process_body e blk view wd1)
      = fst (push_blocks e (out view) (fst (select_stream e (trace wd1) q blk)) wd2)"
    using assms by (simp add: process_body_def Let_def case_prod_beta wd2_def split: option.split)
  from push_blocks_trace_extends[of e "out view" "fst (select_stream e (trace wd1) q blk)" wd2]
  obtain rest where "trace (fst (push_blocks e (out view) (fst (select_stream e (trace wd1) q blk)) wd2))
      = trace wd2 @ rest" by (elim exE)
  then have "trace (snd (process e t blk view wd)) = trace wd @ SelectExecute q blk # rest"
    unfolding tr body by (simp add: wd2_def wd1_def)
  then show ?thesis by (rule exI)
qed

text \<open>C3, as amended. An exception captured in a view is never cleared: it is still there
  after any stage runner and after \<^verbatim>\<open>writePrefix\<close>, \<^verbatim>\<open>write\<close> and \<^verbatim>\<open>writeSuffix\<close>. But the
  writer does not skip a view that holds one. A runner called on such a view, whatever
  the view, executes its stage body as it does on the same view without exception: the
  world it leaves (the calls made on the collaborators) and the statistics of the view
  (status and elapsed time) are the same. So the prefix runner calls the prefix of the
  sink and the suffix runner its suffix; the block runner of a view with an inner query
  executes the select over the block, and that of a view without one writes the block to
  the sink. And single-threaded \<^verbatim>\<open>writeSuffix\<close> calls the suffix of every view up to and
  including the first one that holds an exception (whether captured by this call or by an
  earlier \<^verbatim>\<open>write\<close>), then runs \<^verbatim>\<open>log_query_views\<close>; only the views after that one are
  skipped.\<close>

theorem failed_view_still_runs_its_stages:
  "(exception view \<noteq> None \<longrightarrow>
        exception (fst (process_prefix e t view wd)) \<noteq> None
      \<and> snd (process_prefix e t view wd) = snd (process_prefix e t (view\<lparr>exception := None\<rparr>) wd)
      \<and> runtime_stats (fst (process_prefix e t view wd))
          = runtime_stats (fst (process_prefix e t (view\<lparr>exception := None\<rparr>) wd))
      \<and> trace (snd (process_prefix e t view wd)) = trace wd @ [SinkWritePrefix (out view)]
      \<and> exception (fst (process e t blk view wd)) \<noteq> None
      \<and> snd (process e t blk view wd) = snd (process e t blk (view\<lparr>exception := None\<rparr>) wd)
      \<and> runtime_stats (fst (process e t blk view wd))
          = runtime_stats (fst (process e t blk (view\<lparr>exception := None\<rparr>) wd))
      \<and> (\<forall>q. query view = Some q \<longrightarrow>
             (\<exists>rest. trace (snd (process e t blk view wd)) = trace wd @ SelectExecute q blk # rest))
      \<and> (query view = None \<and> block_bool blk \<and> validateArraySizes blk = None \<longrightarrow>
           trace (snd (process e t blk view wd)) = trace wd @ [SinkWrite (out view) blk])
      \<and> exception (fst (process_suffix e t view wd)) \<noteq> None
      \<and> snd (process_suffix e t view wd) = snd (process_suffix e t (view\<lparr>exception := None\<rparr>) wd)
      \<and> runtime_stats (fst (process_suffix e t view wd))
          = runtime_stats (fst (process_suffix e t (view\<lparr>exception := None\<rparr>) wd))
      \<and> trace (snd (process_suffix e t view wd)) = trace wd @ [SinkWriteSuffix (out view)])
   \<and> (k < length (views w) \<and> exception (views w ! k) \<noteq> None \<longrightarrow>
        exception (views (fst (writePrefix e handled t w wd)) ! k) \<noteq> None
      \<and> exception (views (fst (write_block e sched t blk w wd)) ! k) \<noteq> None
      \<and> exception (views (fst (writeSuffix e sched t w wd)) ! k) \<noteq> None)
   \<and> (pool_threads w \<le> 1 \<and> snd (on_output e SinkWriteSuffix w wd) = None \<and> views w \<noteq> [] \<longrightarrow>
        (\<exists>wd2. trace wd2
                 = trace (fst (on_output e SinkWriteSuffix w wd))
                   @ map (\<lambda>v. SinkWriteSuffix (out v))
                       (take (Suc (first_failed (views (fst (writeSuffix e sched t w wd))))) (views w))
              \<and> fst (snd (writeSuffix e sched t w wd))
                 = log_query_views (fst (writeSuffix e sched t w wd)) wd2))"
proof (intro conjI impI allI)
  assume f: "exception view \<noteq> None"
  show "exception (fst (process_prefix e t view wd)) \<noteq> None"
    using f by (rule process_prefix_keeps_exception)
  show "snd (process_prefix e t view wd) = snd (process_prefix e t (view\<lparr>exception := None\<rparr>) wd)"
    by (simp only: process_prefix_ignores_exception)
  show "runtime_stats (fst (process_prefix e t view wd))
          = runtime_stats (fst (process_prefix e t (view\<lparr>exception := None\<rparr>) wd))"
    by (simp only: process_prefix_ignores_exception)
  show "trace (snd (process_prefix e t view wd)) = trace wd @ [SinkWritePrefix (out view)]"
    by (rule process_prefix_trace)
  show "exception (fst (process e t blk view wd)) \<noteq> None"
    using f by (rule process_keeps_exception)
  show "snd (process e t blk view wd) = snd (process e t blk (view\<lparr>exception := None\<rparr>) wd)"
    by (simp only: process_ignores_exception)
  show "runtime_stats (fst (process e t blk view wd))
          = runtime_stats (fst (process e t blk (view\<lparr>exception := None\<rparr>) wd))"
    by (simp only: process_ignores_exception)
  show "exception (fst (process_suffix e t view wd)) \<noteq> None"
    using f by (rule process_suffix_keeps_exception)
  show "snd (process_suffix e t view wd) = snd (process_suffix e t (view\<lparr>exception := None\<rparr>) wd)"
    by (simp only: process_suffix_ignores_exception)
  show "runtime_stats (fst (process_suffix e t view wd))
          = runtime_stats (fst (process_suffix e t (view\<lparr>exception := None\<rparr>) wd))"
    by (simp only: process_suffix_ignores_exception)
  show "trace (snd (process_suffix e t view wd)) = trace wd @ [SinkWriteSuffix (out view)]"
    by (rule process_suffix_trace)
next
  fix q
  assume "query view = Some q"
  then show "\<exists>rest. trace (snd (process e t blk view wd)) = trace wd @ SelectExecute q blk # rest"
    by (rule process_trace_query)
next
  assume "query view = None \<and> block_bool blk \<and> validateArraySizes blk = None"
  then show "trace (snd (process e t blk view wd)) = trace wd @ [SinkWrite (out view) blk]"
    by (intro process_trace_plain) simp_all
next
  assume k: "k < length (views w) \<and> exception (views w ! k) \<noteq> None"
  then show "exception (views (fst (writePrefix e handled t w wd)) ! k) \<noteq> None"
    by (intro captured_exception_stays(1)) simp_all
  from k show "exception (views (fst (write_block e sched t blk w wd)) ! k) \<noteq> None"
    by (intro captured_exception_stays(2)) simp_all
  from k show "exception (views (fst (writeSuffix e sched t w wd)) ! k) \<noteq> None"
    by (intro captured_exception_stays(3)) simp_all
next
  assume a: "pool_threads w \<le> 1 \<and> snd (on_output e SinkWriteSuffix w wd) = None \<and> views w \<noteq> []"
  then have single: "pool_threads w \<le> 1" and ok: "snd (on_output e SinkWriteSuffix w wd) = None"
    and some: "views w \<noteq> []" by simp_all
  note ws = writeSuffix_single_thread[OF single ok some, of sched t]
  have vs: "views (fst (writeSuffix e sched t w wd))
      = fst (sequential_loop (process_suffix e t) (views w) (fst (on_output e SinkWriteSuffix w wd)))"
    unfolding ws(1) by simp
  have "trace (fst (snd (sequential_loop (process_suffix e t) (views w)
                                (fst (on_output e SinkWriteSuffix w wd)))))
          = trace (fst (on_output e SinkWriteSuffix w wd))
                   @ map (\<lambda>v. SinkWriteSuffix (out v))
                       (take (Suc (first_failed (views (fst (writeSuffix e sched t w wd))))) (views w))"
    unfolding vs by (rule suffix_loop_trace)
  with ws(2) show "\<exists>wd2. trace wd2
                 = trace (fst (on_output e SinkWriteSuffix w wd))
                   @ map (\<lambda>v. SinkWriteSuffix (out v))
                       (take (Suc (first_failed (views (fst (writeSuffix e sched t w wd))))) (views w))
              \<and> fst (snd (writeSuffix e sched t w wd))
                 = log_query_views (fst (writeSuffix e sched t w wd)) wd2"
    by blast
qed

theorem failed_view_still_runs_its_stages_witness:
  "exception (views (fst failed_write) ! 0) \<noteq> None
   \<and> 0 < length (views (fst failed_write))
   \<and> pool_threads (fst failed_write) \<le> 1
   \<and> snd (on_output boom_env SinkWriteSuffix (fst failed_write) (fst (snd failed_write))) = None
   \<and> views (fst failed_write) \<noteq> []
   \<and> exception (fst (process_suffix boom_env 0 (views (fst failed_write) ! 0) (fst (snd failed_write))))
       \<noteq> None
   \<and> trace (snd (process_suffix boom_env 0 (views (fst failed_write) ! 0) (fst (snd failed_write))))
       = trace (fst (snd failed_write)) @ [SinkWriteSuffix 1]
   \<and> exception (views (fst suffix_after_failed_write) ! 0) \<noteq> None
   \<and> exception failed_materialized_view \<noteq> None
   \<and> query failed_materialized_view = Some ''SELECT x FROM db.t''
   \<and> (\<exists>rest. trace (snd (process quiet_env 0 plain_block failed_materialized_view idle_world))
                = trace idle_world @ SelectExecute ''SELECT x FROM db.t'' plain_block # rest)
   \<and> trace (snd (process quiet_env 0 plain_block failed_materialized_view idle_world))
       = [SelectExecute ''SELECT x FROM db.t'' plain_block, SinkWrite 1 plain_block]
   \<and> status (runtime_stats (fst (process quiet_env 0 plain_block failed_materialized_view idle_world)))
       = WRITTEN_BLOCK"
proof -
  have failed: "exception (views (fst failed_write) ! 0) \<noteq> None" by code_simp
  have k: "0 < length (views (fst failed_write))" by code_simp
  have single: "pool_threads (fst failed_write) \<le> 1" by code_simp
  have ok: "snd (on_output boom_env SinkWriteSuffix (fst failed_write) (fst (snd failed_write))) = None"
    by code_simp
  have some: "views (fst failed_write) \<noteq> []" by code_simp
  have sink: "out (views (fst failed_write) ! 0) = 1" by code_simp
  have mv_failed: "exception failed_materialized_view \<noteq> None" by code_simp
  have mv_query: "query failed_materialized_view = Some ''SELECT x FROM db.t''" by code_simp
  have mv_trace: "trace (snd (process quiet_env 0 plain_block failed_materialized_view idle_world))
       = [SelectExecute ''SELECT x FROM db.t'' plain_block, SinkWrite 1 plain_block]" by code_simp
  have mv_status: "status (runtime_stats (fst (process quiet_env 0 plain_block failed_materialized_view
       idle_world))) = WRITTEN_BLOCK" by code_simp
  note runs = failed_view_still_runs_its_stages[of "views (fst failed_write) ! 0" boom_env 0
      "fst (snd failed_write)" plain_block 0 "fst failed_write" None "[]",
      folded suffix_after_failed_write_def]
  from runs[THEN conjunct1] failed
  have a: "exception (fst (process_suffix boom_env 0 (views (fst failed_write) ! 0) (fst (snd failed_write))))
       \<noteq> None"
    and b: "trace (snd (process_suffix boom_env 0 (views (fst failed_write) ! 0) (fst (snd failed_write))))
       = trace (fst (snd failed_write)) @ [SinkWriteSuffix (out (views (fst failed_write) ! 0))]"
    by blast+
  from runs[THEN conjunct2, THEN conjunct1] failed k
  have c: "exception (views (fst suffix_after_failed_write) ! 0) \<noteq> None" by blast
  note mv = failed_view_still_runs_its_stages[of failed_materialized_view quiet_env 0 idle_world
      plain_block 0 "fst failed_write" None "[]", THEN conjunct1, rule_format, OF mv_failed]
  from mv mv_query
  have d: "\<exists>rest. trace (snd (process quiet_env 0 plain_block failed_materialized_view idle_world))
                = trace idle_world @ SelectExecute ''SELECT x FROM db.t'' plain_block # rest"
    by blast
  show ?thesis
    by (intro conjI failed k single ok some a b[unfolded sink] c mv_failed mv_query d mv_trace
        mv_status)
qed

text \<open>C3 as stated fails: after a \<^verbatim>\<open>write\<close> in which the first view failed, \<^verbatim>\<open>writeSuffix\<close>
  calls the suffix of the sink of that view and sets its status to \<^verbatim>\<open>WRITTEN_SUFFIX\<close>.\<close>

theorem suffix_runs_on_view_that_failed_in_write:
  "snd (snd failed_write) = Thrown (Exception ''boom: while pushing to view db.v1'')
   \<and> exception (views (fst failed_write) ! 0)
       = Some (Exception ''boom: while pushing to view db.v1'')
   \<and> out (views (fst failed_write) ! 0) = 1
   \<and> SinkWriteSuffix 1 \<in> set (trace (fst (snd suffix_after_failed_write)))
   \<and> status (runtime_stats (views (fst suffix_after_failed_write) ! 0)) = WRITTEN_SUFFIX"
  by code_simp

subsection \<open>The exception that is rethrown\<close>

lemma writeSuffix_fan_out:
  assumes "snd (on_output e SinkWriteSuffix w wd) = None" "views w \<noteq> []"
    and "fan_out sched t (process_suffix e) w (fst (on_output e SinkWriteSuffix w wd)) = (w', wd2, Thrown x)"
  shows "writeSuffix e sched t w wd = (w', wd2, Thrown x)"
  using assms by (simp add: writeSuffix_def case_prod_beta Let_def)

lemma write_block_fan_out:
  assumes "validateArraySizes blk = None" "snd (write_to_storage e blk w wd) = None" "views w \<noteq> []"
    and "\<not> (\<not> deduplicate_blocks_in_dependent_materialized_views (getContext w)
             \<and> replicated_output w
             \<and> lastBlockIsDuplicate e (trace (fst (write_to_storage e blk w wd))))"
  shows "write_block e sched t blk w wd
           = fan_out sched t (\<lambda>t'. process e t' blk) w (fst (write_to_storage e blk w wd))"
  using assms by (auto simp add: write_block_def case_prod_beta Let_def)

lemma captured_nonempty:
  assumes "\<exists>v\<in>set (fst (run_views sched t stage w wd)). exception v \<noteq> None"
  shows "views w \<noteq> []"
proof
  assume "views w = []"
  then have "length (fst (run_views sched t stage w wd)) = 0" by (simp add: run_views_length)
  with assms show False by simp
qed

text \<open>C7, as amended. Let every \<^verbatim>\<open>DB::Exception\<close> held by a view before the call name that
  view (\<open>names_its_view\<close>; it is so for views without exception, and the runners keep it
  so), and let the pool, if used, have fewer than 256 views (the range of its failure
  counter). When a view holds an exception after the fan-out of \<^verbatim>\<open>write\<close> (the block
  being valid, written to the storage and not gated as a duplicate) or of \<^verbatim>\<open>writeSuffix\<close>
  (the suffix of the direct sink having succeeded), the method runs \<^verbatim>\<open>log_query_views\<close>
  over the full list of views, after the fan-out, and throws exactly the exception of
  the first view, in the order of the list, that holds one. If that exception is a
  \<^verbatim>\<open>DB::Exception\<close> its message contains the display form of the table id of that view
  (\<^verbatim>\<open>view.table_id.getNameForLogs()\<close>); an exception of another type is rethrown as it
  was captured.\<close>

theorem view_exception_rethrown_after_fan_out:
  assumes named: "list_all names_its_view (views w)"
    and bound: "pool_threads w \<le> 1 \<or> length (views w) < 256"
  shows
   "(validateArraySizes blk = None
     \<and> snd (write_to_storage e blk w wd) = None
     \<and> \<not> (\<not> deduplicate_blocks_in_dependent_materialized_views (getContext w)
           \<and> replicated_output w
           \<and> lastBlockIsDuplicate e (trace (fst (write_to_storage e blk w wd))))
     \<and> (\<exists>v\<in>set (fst (run_views sched t (\<lambda>t'. process e t' blk) w
                          (fst (write_to_storage e blk w wd)))). exception v \<noteq> None)
     \<longrightarrow> (\<exists>view x.
            find (\<lambda>v. exception v \<noteq> None)
              (fst (run_views sched t (\<lambda>t'. process e t' blk) w (fst (write_to_storage e blk w wd))))
              = Some view
          \<and> exception view = Some x
          \<and> (\<forall>m. x = Exception m \<longrightarrow> sublist (table_id view) m)
          \<and> write_block e sched t blk w wd =
              (w\<lparr>views := fst (run_views sched t (\<lambda>t'. process e t' blk) w
                                 (fst (write_to_storage e blk w wd)))\<rparr>,
               log_query_views
                 (w\<lparr>views := fst (run_views sched t (\<lambda>t'. process e t' blk) w
                                    (fst (write_to_storage e blk w wd)))\<rparr>)
                 (fst (snd (run_views sched t (\<lambda>t'. process e t' blk) w
                              (fst (write_to_storage e blk w wd))))),
               Thrown x)))
    \<and> (snd (on_output e SinkWriteSuffix w wd) = None
       \<and> (\<exists>v\<in>set (fst (run_views sched t (process_suffix e) w
                            (fst (on_output e SinkWriteSuffix w wd)))). exception v \<noteq> None)
     \<longrightarrow> (\<exists>view x.
            find (\<lambda>v. exception v \<noteq> None)
              (fst (run_views sched t (process_suffix e) w (fst (on_output e SinkWriteSuffix w wd))))
              = Some view
          \<and> exception view = Some x
          \<and> (\<forall>m. x = Exception m \<longrightarrow> sublist (table_id view) m)
          \<and> writeSuffix e sched t w wd =
              (w\<lparr>views := fst (run_views sched t (process_suffix e) w
                                 (fst (on_output e SinkWriteSuffix w wd)))\<rparr>,
               log_query_views
                 (w\<lparr>views := fst (run_views sched t (process_suffix e) w
                                    (fst (on_output e SinkWriteSuffix w wd)))\<rparr>)
                 (fst (snd (run_views sched t (process_suffix e) w
                              (fst (on_output e SinkWriteSuffix w wd))))),
               Thrown x)))"
proof (intro conjI impI)
  assume a: "validateArraySizes blk = None
     \<and> snd (write_to_storage e blk w wd) = None
     \<and> \<not> (\<not> deduplicate_blocks_in_dependent_materialized_views (getContext w)
           \<and> replicated_output w
           \<and> lastBlockIsDuplicate e (trace (fst (write_to_storage e blk w wd))))
     \<and> (\<exists>v\<in>set (fst (run_views sched t (\<lambda>t'. process e t' blk) w
                          (fst (write_to_storage e blk w wd)))). exception v \<noteq> None)"
  note valid = a[THEN conjunct1] and stored = a[THEN conjunct2, THEN conjunct1]
    and gate = a[THEN conjunct2, THEN conjunct2, THEN conjunct1]
    and captured = a[THEN conjunct2, THEN conjunct2, THEN conjunct2]
  have some: "views w \<noteq> []" using captured by (rule captured_nonempty)
  have w: "write_block e sched t blk w wd
           = fan_out sched t (\<lambda>t'. process e t' blk) w (fst (write_to_storage e blk w wd))"
    using valid stored some gate by (rule write_block_fan_out)
  show "\<exists>view x.
            find (\<lambda>v. exception v \<noteq> None)
              (fst (run_views sched t (\<lambda>t'. process e t' blk) w (fst (write_to_storage e blk w wd))))
              = Some view
          \<and> exception view = Some x
          \<and> (\<forall>m. x = Exception m \<longrightarrow> sublist (table_id view) m)
          \<and> write_block e sched t blk w wd =
              (w\<lparr>views := fst (run_views sched t (\<lambda>t'. process e t' blk) w
                                 (fst (write_to_storage e blk w wd)))\<rparr>,
               log_query_views
                 (w\<lparr>views := fst (run_views sched t (\<lambda>t'. process e t' blk) w
                                    (fst (write_to_storage e blk w wd)))\<rparr>)
                 (fst (snd (run_views sched t (\<lambda>t'. process e t' blk) w
                              (fst (write_to_storage e blk w wd))))),
               Thrown x)"
    unfolding w
    using named bound captured
    by (intro fan_out_rethrows process_names)
next
  assume a: "snd (on_output e SinkWriteSuffix w wd) = None
       \<and> (\<exists>v\<in>set (fst (run_views sched t (process_suffix e) w
                            (fst (on_output e SinkWriteSuffix w wd)))). exception v \<noteq> None)"
  note ok = a[THEN conjunct1] and captured = a[THEN conjunct2]
  have some: "views w \<noteq> []" using captured by (rule captured_nonempty)
  from fan_out_rethrows[where stage = "process_suffix e", OF process_suffix_names named bound captured]
  obtain view x where first: "find (\<lambda>v. exception v \<noteq> None)
              (fst (run_views sched t (process_suffix e) w (fst (on_output e SinkWriteSuffix w wd))))
              = Some view"
      "exception view = Some x"
      "\<forall>m. x = Exception m \<longrightarrow> sublist (table_id view) m"
    and fan: "fan_out sched t (process_suffix e) w (fst (on_output e SinkWriteSuffix w wd)) =
              (w\<lparr>views := fst (run_views sched t (process_suffix e) w
                                 (fst (on_output e SinkWriteSuffix w wd)))\<rparr>,
               log_query_views
                 (w\<lparr>views := fst (run_views sched t (process_suffix e) w
                                    (fst (on_output e SinkWriteSuffix w wd)))\<rparr>)
                 (fst (snd (run_views sched t (process_suffix e) w
                              (fst (on_output e SinkWriteSuffix w wd))))),
               Thrown x)"
    by blast
  from writeSuffix_fan_out[OF ok some fan] first
  show "\<exists>view x.
            find (\<lambda>v. exception v \<noteq> None)
              (fst (run_views sched t (process_suffix e) w (fst (on_output e SinkWriteSuffix w wd))))
              = Some view
          \<and> exception view = Some x
          \<and> (\<forall>m. x = Exception m \<longrightarrow> sublist (table_id view) m)
          \<and> writeSuffix e sched t w wd =
              (w\<lparr>views := fst (run_views sched t (process_suffix e) w
                                 (fst (on_output e SinkWriteSuffix w wd)))\<rparr>,
               log_query_views
                 (w\<lparr>views := fst (run_views sched t (process_suffix e) w
                                    (fst (on_output e SinkWriteSuffix w wd)))\<rparr>)
                 (fst (snd (run_views sched t (process_suffix e) w
                              (fst (on_output e SinkWriteSuffix w wd))))),
               Thrown x)"
    by blast
qed

text \<open>C7 as stated fails: an exception that is not a \<^verbatim>\<open>DB::Exception\<close>, thrown by the sink
  of a view during \<^verbatim>\<open>write\<close>, is rethrown with a message that does not contain the name of
  the view.\<close>

theorem write_rethrows_other_exception_unnamed:
  "snd (snd failed_write_other) = Thrown (Other ''boom'')
   \<and> exception (views (fst failed_write_other) ! 0) = Some (Other ''boom'')
   \<and> table_id (views (fst failed_write_other) ! 0) = ''db.v1''
   \<and> \<not> sublist ''db.v1'' (message (Other ''boom''))"
  by code_simp

theorem view_exception_rethrown_after_fan_out_witness:
  "list_all names_its_view (views (table_writer two_views))
   \<and> pool_threads (table_writer two_views) \<le> 1
   \<and> validateArraySizes plain_block = None
   \<and> snd (write_to_storage boom_env plain_block (table_writer two_views) idle_world) = None
   \<and> \<not> replicated_output (table_writer two_views)
   \<and> exception (hd (fst (run_views [] 0 (\<lambda>t'. process boom_env t' plain_block) (table_writer two_views)
                            (fst (write_to_storage boom_env plain_block (table_writer two_views)
                                    idle_world))))) \<noteq> None
   \<and> (\<exists>view x.
          find (\<lambda>v. exception v \<noteq> None)
            (fst (run_views [] 0 (\<lambda>t'. process boom_env t' plain_block) (table_writer two_views)
                    (fst (write_to_storage boom_env plain_block (table_writer two_views) idle_world))))
            = Some view
        \<and> exception view = Some x
        \<and> (\<forall>m. x = Exception m \<longrightarrow> sublist (table_id view) m)
        \<and> snd (snd failed_write) = Thrown x)
   \<and> snd (snd failed_write) = Thrown (Exception ''boom: while pushing to view db.v1'')
   \<and> sublist ''db.v1'' ''boom: while pushing to view db.v1''"
proof -
  have named: "list_all names_its_view (views (table_writer two_views))" by code_simp
  have single: "pool_threads (table_writer two_views) \<le> 1" by code_simp
  have valid: "validateArraySizes plain_block = None" by code_simp
  have stored: "snd (write_to_storage boom_env plain_block (table_writer two_views) idle_world) = None"
    by code_simp
  have plain: "\<not> replicated_output (table_writer two_views)" by code_simp
  have head: "exception (hd (fst (run_views [] 0 (\<lambda>t'. process boom_env t' plain_block)
                            (table_writer two_views)
                            (fst (write_to_storage boom_env plain_block (table_writer two_views)
                                    idle_world))))) \<noteq> None"
    by code_simp
  have two: "fst (run_views [] 0 (\<lambda>t'. process boom_env t' plain_block) (table_writer two_views)
                    (fst (write_to_storage boom_env plain_block (table_writer two_views) idle_world)))
               \<noteq> []"
    by code_simp
  have member: "hd (fst (run_views [] 0 (\<lambda>t'. process boom_env t' plain_block) (table_writer two_views)
                    (fst (write_to_storage boom_env plain_block (table_writer two_views) idle_world))))
         \<in> set (fst (run_views [] 0 (\<lambda>t'. process boom_env t' plain_block) (table_writer two_views)
                    (fst (write_to_storage boom_env plain_block (table_writer two_views) idle_world))))"
    using two by (rule hd_in_set)
  from member head have captured: "\<exists>v\<in>set (fst (run_views [] 0 (\<lambda>t'. process boom_env t' plain_block)
                            (table_writer two_views)
                            (fst (write_to_storage boom_env plain_block (table_writer two_views)
                                    idle_world)))). exception v \<noteq> None"
    by (rule rev_bexI)
  have thrown: "snd (snd failed_write) = Thrown (Exception ''boom: while pushing to view db.v1'')"
    by code_simp
  have inside: "sublist ''db.v1'' ''boom: while pushing to view db.v1''" by code_simp
  have bound: "pool_threads (table_writer two_views) \<le> 1 \<or> length (views (table_writer two_views)) < 256"
    using single by simp
  note rethrown = view_exception_rethrown_after_fan_out[OF named bound,
      of plain_block boom_env idle_world "[]" 0, THEN conjunct1, folded failed_write_def]
  have open_gate: "\<not> (\<not> deduplicate_blocks_in_dependent_materialized_views (getContext (table_writer two_views))
           \<and> replicated_output (table_writer two_views)
           \<and> lastBlockIsDuplicate boom_env
                (trace (fst (write_to_storage boom_env plain_block (table_writer two_views) idle_world))))"
    using plain by simp
  from rethrown[rule_format, OF conjI[OF valid conjI[OF stored conjI[OF open_gate captured]]]]
  obtain view x where first: "find (\<lambda>v. exception v \<noteq> None)
            (fst (run_views [] 0 (\<lambda>t'. process boom_env t' plain_block) (table_writer two_views)
                    (fst (write_to_storage boom_env plain_block (table_writer two_views) idle_world))))
            = Some view"
      "exception view = Some x"
      "\<forall>m. x = Exception m \<longrightarrow> sublist (table_id view) m"
    and whole: "failed_write =
              ((table_writer two_views)\<lparr>views := fst (run_views [] 0 (\<lambda>t'. process boom_env t' plain_block)
                                 (table_writer two_views)
                                 (fst (write_to_storage boom_env plain_block (table_writer two_views)
                                         idle_world)))\<rparr>,
               log_query_views
                 ((table_writer two_views)\<lparr>views := fst (run_views [] 0
                                    (\<lambda>t'. process boom_env t' plain_block) (table_writer two_views)
                                    (fst (write_to_storage boom_env plain_block (table_writer two_views)
                                            idle_world)))\<rparr>)
                 (fst (snd (run_views [] 0 (\<lambda>t'. process boom_env t' plain_block)
                              (table_writer two_views)
                              (fst (write_to_storage boom_env plain_block (table_writer two_views)
                                      idle_world))))),
               Thrown x)"
    by (elim exE conjE)
  have "snd (snd failed_write) = Thrown x" unfolding whole by simp
  with first have rethrows: "\<exists>view x.
          find (\<lambda>v. exception v \<noteq> None)
            (fst (run_views [] 0 (\<lambda>t'. process boom_env t' plain_block) (table_writer two_views)
                    (fst (write_to_storage boom_env plain_block (table_writer two_views) idle_world))))
            = Some view
        \<and> exception view = Some x
        \<and> (\<forall>m. x = Exception m \<longrightarrow> sublist (table_id view) m)
        \<and> snd (snd failed_write) = Thrown x"
    by (intro exI conjI)
  show ?thesis
    by (intro conjI named single valid stored plain head rethrows thrown inside)
qed

end
